theory Spec2Isabelle
  imports Main "HOL-Library.Word"
begin

unbundle bit_operations_syntax

section \<open>Data model\<close>

text \<open>
  A payload is a sequence of bytes (\<open>unsigned char\<close>), an encoded text a sequence of
  \<open>char\<close>. Every decoder of the source reports a failure by returning \<open>NULL\<close>; the
  model names the place that returned it. Memory allocation is taken to succeed.
\<close>

type_synonym byte = "8 word"

datatype error = LengthError | InvalidCharacterError | EmptyInputError

subsection \<open>Alphabet tables (tables.c)\<close>

definition base16_table :: string where
  "base16_table = ''0123456789ABCDEF''"

definition base32_table :: string where
  "base32_table = ''ABCDEFGHIJKLMNOPQRSTUVWXYZ234567''"

definition base58_table :: string where
  "base58_table = ''123456789ABCDEFGHJKLMNPQRSTUVWXYZabcdefghijkmnopqrstuvwxyz''"

definition base62_table :: string where
  "base62_table = ''0123456789ABCDEFGHIJKLMNOPQRSTUVWXYZabcdefghijklmnopqrstuvwxyz''"

definition base64_table :: string where
  "base64_table = ''ABCDEFGHIJKLMNOPQRSTUVWXYZabcdefghijklmnopqrstuvwxyz0123456789+/''"

definition base85_table :: string where
  "base85_table = ''!'' @ [CHR 0x22] @ ''#$%&'' @ [CHR 0x27] @
     ''()*+,-./0123456789:;<=>?@ABCDEFGHIJKLMNOPQRSTUVWXYZ['' @ [CHR 0x5C] @
     '']^_'' @ [CHR 0x60] @ ''abcdefghijklmnopqrstuvwxyz''"

subsection \<open>find_index (decod_func.c)\<close>

text \<open>The table is the C string without its terminating NUL; the scan stops there.\<close>

fun find_index_loop :: "char \<Rightarrow> string \<Rightarrow> int \<Rightarrow> int" where
  "find_index_loop c [] i = -1"
| "find_index_loop c (t # ts) i = (if t = c then i else find_index_loop c ts (i + 1))"

definition find_index :: "char \<Rightarrow> string \<Rightarrow> int" where
  "find_index c table = find_index_loop c table 0"

section \<open>Base16\<close>

definition base16_chars :: string where
  "base16_chars = ''0123456789ABCDEF''"

fun base16_encode :: "byte list \<Rightarrow> string" where
  "base16_encode [] = []"
| "base16_encode (b # bs) =
     base16_chars ! unat (drop_bit 4 b AND 0x0F) # base16_chars ! unat (b AND 0x0F)
       # base16_encode bs"

fun base16_decode_loop :: "string \<Rightarrow> byte list \<Rightarrow> error + byte list" where
  "base16_decode_loop (h # l # rest) output =
     (let high_nibble = find_index h base16_table;
          low_nibble = find_index l base16_table
      in if high_nibble = -1 \<or> low_nibble = -1 then Inl InvalidCharacterError
         else base16_decode_loop rest
                (output @ [word_of_int (push_bit 4 high_nibble OR low_nibble)]))"
| "base16_decode_loop _ output = Inr output"

definition base16_decode :: "string \<Rightarrow> error + byte list" where
  "base16_decode input =
     (if length input mod 2 \<noteq> 0 then Inl LengthError else base16_decode_loop input [])"

section \<open>Base32\<close>

text \<open>The inner \<open>while (bit_count >= 5)\<close> loop of \<open>base32_encode\<close>.\<close>

function base32_encode_emit :: "32 word \<Rightarrow> nat \<Rightarrow> string \<Rightarrow> nat \<times> string" where
  "base32_encode_emit val bit_count output =
     (if bit_count \<ge> 5
      then base32_encode_emit val (bit_count - 5)
             (output @ [base32_table ! unat (drop_bit (bit_count - 5) val AND 0x1F)])
      else (bit_count, output))"
  by pat_completeness auto
termination
  by (relation "measure (\<lambda>(val, bit_count, output). bit_count)") auto

declare base32_encode_emit.simps [simp del]

fun base32_encode_loop :: "byte list \<Rightarrow> 32 word \<Rightarrow> nat \<Rightarrow> string \<Rightarrow> 32 word \<times> nat \<times> string" where
  "base32_encode_loop [] val bit_count output = (val, bit_count, output)"
| "base32_encode_loop (b # bs) val bit_count output =
     (let val = push_bit 8 val OR ucast b;
          (bit_count, output) = base32_encode_emit val (bit_count + 8) output
      in base32_encode_loop bs val bit_count output)"

definition base32_encode :: "byte list \<Rightarrow> string" where
  "base32_encode input =
     (let (val, bit_count, output) = base32_encode_loop input 0 0 []
      in if bit_count > 0
         then output @ [base32_table ! unat (push_bit (5 - bit_count) val AND 0x1F)]
         else output)"

text \<open>
  Both padding decoders first compute \<open>padded_len\<close> by counting up, copy the input with
  \<open>strncpy\<close> (which stops at a NUL byte and fills the rest with NUL) and fill the tail
  with the pad symbol.
\<close>

function padded_len8 :: "nat \<Rightarrow> nat" where
  "padded_len8 n = (if n mod 8 \<noteq> 0 then padded_len8 (n + 1) else n)"
  by pat_completeness auto
termination
proof (relation "measure (\<lambda>n. (8 - n mod 8) mod 8)")
  fix n :: nat
  assume "n mod 8 \<noteq> 0"
  moreover have "n mod 8 < 8" by simp
  ultimately show "(n + 1, n) \<in> measure (\<lambda>n. (8 - n mod 8) mod 8)"
    by (simp add: mod_Suc) linarith
qed simp

declare padded_len8.simps [simp del]

function padded_len4 :: "nat \<Rightarrow> nat" where
  "padded_len4 n = (if n mod 4 \<noteq> 0 then padded_len4 (n + 1) else n)"
  by pat_completeness auto
termination
proof (relation "measure (\<lambda>n. (4 - n mod 4) mod 4)")
  fix n :: nat
  assume "n mod 4 \<noteq> 0"
  moreover have "n mod 4 < 4" by simp
  ultimately show "(n + 1, n) \<in> measure (\<lambda>n. (4 - n mod 4) mod 4)"
    by (simp add: mod_Suc) linarith
qed simp

declare padded_len4.simps [simp del]

definition strncpy :: "string \<Rightarrow> nat \<Rightarrow> string" where
  "strncpy src n =
     (let s = takeWhile (\<lambda>c. c \<noteq> CHR 0x00) (take n src)
      in s @ replicate (n - length s) (CHR 0x00))"

fun base32_indices :: "string \<Rightarrow> int list option" where
  "base32_indices [] = Some []"
| "base32_indices (c # cs) =
     (if c = CHR ''='' then map_option ((#) 0) (base32_indices cs)
      else let k = find_index c base32_table
           in if k = -1 then None else map_option ((#) k) (base32_indices cs))"

fun base32_value :: "int list \<Rightarrow> nat \<Rightarrow> 64 word \<Rightarrow> 64 word" where
  "base32_value [] j v = v"
| "base32_value (x # xs) j v = base32_value xs (j + 1) (v OR push_bit (35 - j * 5) (word_of_int x))"

definition base32_group :: "string \<Rightarrow> int list \<Rightarrow> byte list" where
  "base32_group g indices =
     (let v = base32_value indices 0 0
      in [ucast (drop_bit 32 v AND 0xFF)]
         @ (if g ! 2 \<noteq> CHR ''='' then [ucast (drop_bit 24 v AND 0xFF)] else [])
         @ (if g ! 4 \<noteq> CHR ''='' then [ucast (drop_bit 16 v AND 0xFF)] else [])
         @ (if g ! 5 \<noteq> CHR ''='' then [ucast (drop_bit 8 v AND 0xFF)] else [])
         @ (if g ! 6 \<noteq> CHR ''='' then [ucast (v AND 0xFF)] else []))"

fun base32_decode_loop :: "string \<Rightarrow> byte list \<Rightarrow> error + byte list" where
  "base32_decode_loop (c0 # c1 # c2 # c3 # c4 # c5 # c6 # c7 # rest) output =
     (let g = [c0, c1, c2, c3, c4, c5, c6, c7]
      in case base32_indices g of
           None \<Rightarrow> Inl InvalidCharacterError
         | Some indices \<Rightarrow> base32_decode_loop rest (output @ base32_group g indices))"
| "base32_decode_loop _ output = Inr output"

definition base32_decode :: "string \<Rightarrow> error + byte list" where
  "base32_decode input =
     (let len = length input;
          padded_len = padded_len8 len;
          padded_input = strncpy input len @ replicate (padded_len - len) (CHR ''='')
      in base32_decode_loop padded_input [])"

section \<open>Base64\<close>

text \<open>
  One iteration of the loop of \<open>base64_encode\<close>, at byte \<open>b0 = input[i]\<close> with \<open>bs\<close>
  the bytes after it: \<open>i + 1 < len\<close> is \<open>1 \<le> length bs\<close>, \<open>i + 2 < len\<close> is
  \<open>2 \<le> length bs\<close>.
\<close>

definition base64_encode_group :: "byte \<Rightarrow> byte list \<Rightarrow> string" where
  "base64_encode_group b0 bs =
     (let has1 = (1 \<le> length bs);
          has2 = (2 \<le> length bs);
          val = (push_bit 16 (ucast b0) OR push_bit 8 (if has1 then ucast (bs ! 0) else 0)
                 OR (if has2 then ucast (bs ! 1) else 0)) :: 32 word
      in [base64_table ! unat (drop_bit 18 val AND 0x3F),
          base64_table ! unat (drop_bit 12 val AND 0x3F),
          if has1 then base64_table ! unat (drop_bit 6 val AND 0x3F) else CHR ''='',
          if has2 then base64_table ! unat (val AND 0x3F) else CHR ''=''])"

fun base64_encode_loop :: "byte list \<Rightarrow> string \<Rightarrow> string" where
  "base64_encode_loop [] output = output"
| "base64_encode_loop (b0 # bs) output =
     base64_encode_loop (drop 2 bs) (output @ base64_encode_group b0 bs)"

definition base64_encode :: "byte list \<Rightarrow> string" where
  "base64_encode input = base64_encode_loop input []"

fun base64_indices :: "string \<Rightarrow> int list option" where
  "base64_indices [] = Some []"
| "base64_indices (c # cs) =
     (if c = CHR ''='' then map_option ((#) 0) (base64_indices cs)
      else let k = find_index c base64_table
           in if k = -1 then None else map_option ((#) k) (base64_indices cs))"

fun base64_value :: "int list \<Rightarrow> nat \<Rightarrow> 32 word \<Rightarrow> 32 word" where
  "base64_value [] j v = v"
| "base64_value (x # xs) j v = base64_value xs (j + 1) (v OR push_bit (18 - j * 6) (word_of_int x))"

definition base64_group :: "string \<Rightarrow> int list \<Rightarrow> byte list" where
  "base64_group g indices =
     (let v = base64_value indices 0 0
      in [ucast (drop_bit 16 v AND 0xFF)]
         @ (if g ! 2 \<noteq> CHR ''='' then [ucast (drop_bit 8 v AND 0xFF)] else [])
         @ (if g ! 3 \<noteq> CHR ''='' then [ucast (v AND 0xFF)] else []))"

fun base64_decode_loop :: "string \<Rightarrow> byte list \<Rightarrow> error + byte list" where
  "base64_decode_loop (c0 # c1 # c2 # c3 # rest) output =
     (let g = [c0, c1, c2, c3]
      in case base64_indices g of
           None \<Rightarrow> Inl InvalidCharacterError
         | Some indices \<Rightarrow> base64_decode_loop rest (output @ base64_group g indices))"
| "base64_decode_loop _ output = Inr output"

definition base64_decode :: "string \<Rightarrow> error + byte list" where
  "base64_decode input =
     (let len = length input;
          padded_len = padded_len4 len;
          padded_input = strncpy input len @ replicate (padded_len - len) (CHR ''='')
      in base64_decode_loop padded_input [])"

section \<open>Base58 and Base62\<close>

text \<open>
  The accumulator \<open>result\<close> is the used part \<open>result[0..j-1]\<close> of the buffer, least
  significant digit first. Digits and carries are natural numbers: every digit stored is
  below 256 and every carry stays below \<open>2^16\<close>, so no C integer wraps in these loops.
\<close>

fun leading_zeros :: "byte list \<Rightarrow> nat" where
  "leading_zeros [] = 0"
| "leading_zeros (b # bs) = (if b = 0 then Suc (leading_zeros bs) else 0)"

fun base58_encode_pass :: "nat \<Rightarrow> nat list \<Rightarrow> nat list \<times> nat" where
  "base58_encode_pass carry [] = ([], carry)"
| "base58_encode_pass carry (r # rs) =
     (let carry = carry + 256 * r;
          (rs', carry') = base58_encode_pass (carry div 58) rs
      in (carry mod 58 # rs', carry'))"

function base58_encode_flush :: "nat \<Rightarrow> nat list \<Rightarrow> nat list" where
  "base58_encode_flush carry result =
     (if carry > 0 then base58_encode_flush (carry div 58) (result @ [carry mod 58])
      else result)"
  by pat_completeness auto
termination
  by (relation "measure (\<lambda>(carry, result). carry)") auto

declare base58_encode_flush.simps [simp del]

fun base58_encode_main :: "byte list \<Rightarrow> nat list \<Rightarrow> nat list" where
  "base58_encode_main [] result = result"
| "base58_encode_main (b # bs) result =
     (let (result, carry) = base58_encode_pass (unat b) result
      in base58_encode_main bs (base58_encode_flush carry result))"

text \<open>
  The \<open>'1'\<close> characters written for the leading zero bytes are overwritten by the final
  loop, which fills \<open>output[0..j-1]\<close> from \<open>result\<close>, with \<open>j\<close> at least the number of
  leading zeros.
\<close>

definition base58_encode :: "byte list \<Rightarrow> string" where
  "base58_encode input =
     (let i = leading_zeros input;
          result = base58_encode_main (drop i input) (replicate i 0)
      in map (\<lambda>d. base58_table ! d) (rev result))"

fun base62_encode_pass :: "nat \<Rightarrow> nat list \<Rightarrow> nat list \<times> nat" where
  "base62_encode_pass carry [] = ([], carry)"
| "base62_encode_pass carry (r # rs) =
     (let carry = carry + 256 * r;
          (rs', carry') = base62_encode_pass (carry div 62) rs
      in (carry mod 62 # rs', carry'))"

function base62_encode_flush :: "nat \<Rightarrow> nat list \<Rightarrow> nat list" where
  "base62_encode_flush carry result =
     (if carry > 0 then base62_encode_flush (carry div 62) (result @ [carry mod 62])
      else result)"
  by pat_completeness auto
termination
  by (relation "measure (\<lambda>(carry, result). carry)") auto

declare base62_encode_flush.simps [simp del]

fun base62_encode_main :: "byte list \<Rightarrow> nat list \<Rightarrow> nat list" where
  "base62_encode_main [] result = result"
| "base62_encode_main (b # bs) result =
     (let (result, carry) = base62_encode_pass (unat b) result
      in base62_encode_main bs (base62_encode_flush carry result))"

definition base62_encode :: "byte list \<Rightarrow> string" where
  "base62_encode input = map (\<lambda>d. base62_table ! d) (rev (base62_encode_main input []))"

text \<open>Decoding: the accumulator holds base-256 digits, least significant first.\<close>

fun base58_zero_count :: "string \<Rightarrow> nat" where
  "base58_zero_count [] = 0"
| "base58_zero_count (c # cs) = (if c = base58_table ! 0 then Suc (base58_zero_count cs) else 0)"

fun base58_decode_pass :: "nat \<Rightarrow> nat list \<Rightarrow> nat list \<times> nat" where
  "base58_decode_pass carry [] = ([], carry)"
| "base58_decode_pass carry (r # rs) =
     (let carry = carry + r * 58;
          (rs', carry') = base58_decode_pass (carry div 256) rs
      in (carry mod 256 # rs', carry'))"

function flush256 :: "nat \<Rightarrow> nat list \<Rightarrow> nat list" where
  "flush256 carry buffer =
     (if carry > 0 then flush256 (carry div 256) (buffer @ [carry mod 256]) else buffer)"
  by pat_completeness auto
termination
  by (relation "measure (\<lambda>(carry, buffer). carry)") auto

declare flush256.simps [simp del]

fun base58_decode_main :: "string \<Rightarrow> nat list \<Rightarrow> error + nat list" where
  "base58_decode_main [] output = Inr output"
| "base58_decode_main (c # cs) output =
     (let carry = find_index c base58_table
      in if carry = -1 then Inl InvalidCharacterError
         else let (output, carry) = base58_decode_pass (nat carry) output
              in base58_decode_main cs (flush256 carry output))"

definition base58_decode :: "string \<Rightarrow> error + byte list" where
  "base58_decode input =
     (let zero_count = base58_zero_count input
      in case base58_decode_main (drop zero_count input) [] of
           Inl e \<Rightarrow> Inl e
         | Inr output \<Rightarrow>
             let output = (if zero_count > 0 then replicate zero_count 0 @ output else output)
             in Inr (map of_nat (rev output)))"

fun base62_mul_pass :: "nat \<Rightarrow> nat list \<Rightarrow> nat list \<times> nat" where
  "base62_mul_pass carry [] = ([], carry)"
| "base62_mul_pass carry (r # rs) =
     (let temp = r * 62 + carry;
          (rs', carry') = base62_mul_pass (temp div 256) rs
      in (temp mod 256 # rs', carry'))"

fun base62_add_pass :: "nat \<Rightarrow> nat list \<Rightarrow> nat list \<times> nat" where
  "base62_add_pass carry [] = ([], carry)"
| "base62_add_pass carry (r # rs) =
     (let temp = r + carry;
          carry = temp div 256
      in if carry = 0 then (temp mod 256 # rs, carry)
         else let (rs', carry') = base62_add_pass carry rs in (temp mod 256 # rs', carry'))"

fun base62_decode_main :: "string \<Rightarrow> nat list \<Rightarrow> nat list" where
  "base62_decode_main [] buffer = buffer"
| "base62_decode_main (c # cs) buffer =
     (let digit = find_index c base62_table;
          (buffer, carry) = base62_mul_pass 0 buffer;
          buffer = flush256 carry buffer;
          (buffer, carry) = base62_add_pass (nat digit) buffer;
          buffer = flush256 carry buffer
      in base62_decode_main cs buffer)"

definition base62_decode :: "string \<Rightarrow> error + byte list" where
  "base62_decode input =
     (if length input = 0 then Inl EmptyInputError
      else if \<exists>c \<in> set input. find_index c base62_table = -1 then Inl InvalidCharacterError
      else Inr (map of_nat (rev (base62_decode_main input [0]))))"

section \<open>Base85\<close>

text \<open>
  One block of \<open>base85_encode\<close>: up to four bytes are packed big-endian into a 32-bit
  value, a short block is shifted up by the missing bytes, and five digits are taken from
  the least significant end.
\<close>

definition base85_pack :: "byte list \<Rightarrow> 32 word" where
  "base85_pack block =
     push_bit (8 * (4 - length block)) (foldl (\<lambda>v x. push_bit 8 v OR ucast x) 0 block)"

fun base85_digits :: "nat \<Rightarrow> 32 word \<Rightarrow> string \<Rightarrow> string" where
  "base85_digits 0 v block = block"
| "base85_digits (Suc j) v block =
     base85_digits j (v div 85) (base85_table ! unat (v mod 85) # block)"

fun base85_encode_loop :: "byte list \<Rightarrow> string \<Rightarrow> string" where
  "base85_encode_loop [] output = output"
| "base85_encode_loop (b # bs) output =
     base85_encode_loop (drop 3 bs)
       (output @ base85_digits 5 (base85_pack (take 4 (b # bs))) [])"

definition base85_encode :: "byte list \<Rightarrow> string" where
  "base85_encode input = base85_encode_loop input []"

text \<open>
  \<open>strchr\<close> also finds the terminating NUL of the table: for the NUL character it
  returns the position just past the last symbol.
\<close>

definition strchr :: "string \<Rightarrow> char \<Rightarrow> nat option" where
  "strchr table c =
     (if c \<in> set table then Some (nat (find_index c table))
      else if c = CHR 0x00 then Some (length table) else None)"

text \<open>
  \<open>value\<close> is an \<open>unsigned long\<close>: 32 or 64 bits. Five digits below 91 stay below
  \<open>2^33\<close>, and only bits 0 to 31 are read, so the bytes are those of the unbounded value.
\<close>

fun base85_value :: "string \<Rightarrow> nat \<Rightarrow> nat option" where
  "base85_value [] v = Some v"
| "base85_value (c # cs) v =
     (case strchr base85_table c of
        None \<Rightarrow> None
      | Some pos \<Rightarrow> base85_value cs (v * 85 + pos))"

fun base85_decode_loop :: "string \<Rightarrow> byte list \<Rightarrow> error + byte list" where
  "base85_decode_loop (c0 # c1 # c2 # c3 # c4 # rest) output =
     (case base85_value [c0, c1, c2, c3, c4] 0 of
        None \<Rightarrow> Inl InvalidCharacterError
      | Some v \<Rightarrow>
          base85_decode_loop rest
            (output @ [of_nat (v div 2 ^ 24 mod 256), of_nat (v div 2 ^ 16 mod 256),
                       of_nat (v div 2 ^ 8 mod 256), of_nat (v mod 256)]))"
| "base85_decode_loop _ output = Inr output"

definition base85_decode :: "string \<Rightarrow> error + byte list" where
  "base85_decode input =
     (if length input = 0 then Inl EmptyInputError
      else let cleaned_input =
                 filter (\<lambda>c. c \<noteq> CHR '' '' \<and> c \<noteq> CHR 0x0A \<and> c \<noteq> CHR 0x0D \<and> c \<noteq> CHR 0x09) input
           in if length cleaned_input mod 5 \<noteq> 0 then Inl LengthError
              else base85_decode_loop cleaned_input [])"

section \<open>Specification-level descriptions\<close>

text \<open>
  The functions of this section are not translations of code: they state, in the words of
  the specification, what a loop of the source is compared with.
\<close>

text \<open>Base16: each pair of symbols gives one byte, \<open>(high << 4) | low\<close>.\<close>

fun base16_pairs :: "string \<Rightarrow> byte list" where
  "base16_pairs (h # l # rest) =
     word_of_int (push_bit 4 (find_index h base16_table) OR find_index l base16_table)
       # base16_pairs rest"
| "base16_pairs _ = []"

text \<open>
  The payload read as one big-endian number, and the Base32 symbols that are complete
  once the bytes \<open>q\<close> have been read: symbol \<open>k\<close> is the 5-bit group that ends
  \<open>5 * (k + 1)\<close> bits from the start of the bit-stream.
\<close>

definition be_value :: "byte list \<Rightarrow> nat" where
  "be_value bs = foldl (\<lambda>v b. 256 * v + unat b) 0 bs"

definition base32_prefix :: "byte list \<Rightarrow> string" where
  "base32_prefix q =
     map (\<lambda>k. base32_table ! (be_value q div 2 ^ (8 * length q - 5 * (k + 1)) mod 32))
       [0..<8 * length q div 5]"

text \<open>
  Padding decoders. A text is valid when each character is the pad symbol or in the
  table; the digit of the pad symbol is 0, the digit of any other symbol its table index;
  the bytes of a text are the bytes of its full groups, one after the other, each group
  decoded as in the source (\<open>base64_group\<close>, \<open>base32_group\<close>).
\<close>

definition base64_valid :: "string \<Rightarrow> bool" where
  "base64_valid s = list_all (\<lambda>c. c = CHR ''='' \<or> c \<in> set base64_table) s"

definition base64_digit :: "char \<Rightarrow> int" where
  "base64_digit c = (if c = CHR ''='' then 0 else find_index c base64_table)"

fun base64_bytes :: "string \<Rightarrow> byte list" where
  "base64_bytes (c0 # c1 # c2 # c3 # rest) =
     base64_group [c0, c1, c2, c3] (map base64_digit [c0, c1, c2, c3]) @ base64_bytes rest"
| "base64_bytes _ = []"

definition base32_valid :: "string \<Rightarrow> bool" where
  "base32_valid s = list_all (\<lambda>c. c = CHR ''='' \<or> c \<in> set base32_table) s"

definition base32_digit :: "char \<Rightarrow> int" where
  "base32_digit c = (if c = CHR ''='' then 0 else find_index c base32_table)"

fun base32_bytes :: "string \<Rightarrow> byte list" where
  "base32_bytes (c0 # c1 # c2 # c3 # c4 # c5 # c6 # c7 # rest) =
     base32_group [c0, c1, c2, c3, c4, c5, c6, c7] (map base32_digit [c0, c1, c2, c3, c4, c5, c6, c7]) @ base32_bytes rest"
| "base32_bytes _ = []"

text \<open>
  Base85 decoding: the text without space, LF, CR and TAB; the digit of a symbol, its
  index in the table; and the bytes of a text, four per block of five symbols, from
  \<open>value = value * 85 + digit\<close>, most significant byte first.
\<close>

definition base85_clean :: "string \<Rightarrow> string" where
  "base85_clean s =
     filter (\<lambda>c. c \<noteq> CHR '' '' \<and> c \<noteq> CHR 0x0A \<and> c \<noteq> CHR 0x0D \<and> c \<noteq> CHR 0x09) s"

definition base85_digit :: "char \<Rightarrow> nat" where
  "base85_digit c = nat (find_index c base85_table)"

fun base85_bytes :: "string \<Rightarrow> byte list" where
  "base85_bytes (c0 # c1 # c2 # c3 # c4 # rest) =
     (let v = (((base85_digit c0 * 85 + base85_digit c1) * 85 + base85_digit c2) * 85
                 + base85_digit c3) * 85 + base85_digit c4
      in [of_nat (v div 2 ^ 24 mod 256), of_nat (v div 2 ^ 16 mod 256),
          of_nat (v div 2 ^ 8 mod 256), of_nat (v mod 256)]) @ base85_bytes rest"
| "base85_bytes _ = []"

text \<open>
  Big-integer codecs. \<open>le_value r ds\<close> is the number with the base-\<open>r\<close> digits \<open>ds\<close>,
  least significant first; a digit list is canonical when its digits are below the radix
  and its most significant digit is not zero; \<open>gen_pass f r\<close> is the carry loop that
  the four codecs share: multiply the number by \<open>f\<close> and add the carry, digit by digit.
\<close>

definition le_value :: "nat \<Rightarrow> nat list \<Rightarrow> nat" where
  "le_value r ds = foldr (\<lambda>d acc. d + r * acc) ds 0"

definition canon :: "nat \<Rightarrow> nat list \<Rightarrow> bool" where
  "canon r ds \<longleftrightarrow> list_all (\<lambda>d. d < r) ds \<and> (ds = [] \<or> last ds \<noteq> 0)"

fun gen_pass :: "nat \<Rightarrow> nat \<Rightarrow> nat \<Rightarrow> nat list \<Rightarrow> nat list \<times> nat" where
  "gen_pass f r carry [] = ([], carry)"
| "gen_pass f r carry (d # ds) =
     (let c = carry + f * d;
          (ds', c') = gen_pass f r (c div r) ds
      in (c mod r # ds', c'))"

text \<open>
  Base32, five bytes at a time: \<open>base32_syms\<close> are the eight 5-bit digits of five
  bytes; \<open>base32_finish\<close> is the code after the loop of \<open>base32_encode\<close> (the last,
  partial digit); \<open>base32_padded\<close> is the encoded text with the \<open>'='\<close> padding that
  \<open>base32_decode\<close> adds to it.
\<close>

definition base32_syms :: "byte \<Rightarrow> byte \<Rightarrow> byte \<Rightarrow> byte \<Rightarrow> byte \<Rightarrow> byte list" where
  "base32_syms b0 b1 b2 b3 b4 =
     [drop_bit 3 b0, push_bit 2 (b0 AND 7) OR drop_bit 6 b1, drop_bit 1 b1 AND 0x1F,
      push_bit 4 (b1 AND 1) OR drop_bit 4 b2, push_bit 1 (b2 AND 0x0F) OR drop_bit 7 b3,
      drop_bit 2 b3 AND 0x1F, push_bit 3 (b3 AND 3) OR drop_bit 5 b4, b4 AND 0x1F]"

definition base32_finish :: "32 word \<times> nat \<times> string \<Rightarrow> string" where
  "base32_finish s =
     (case s of (val, bit_count, out) \<Rightarrow>
        if bit_count > 0
        then out @ [base32_table ! unat (push_bit (5 - bit_count) val AND 0x1F)]
        else out)"

definition base32_padded :: "byte list \<Rightarrow> string" where
  "base32_padded p =
     base32_encode p @ replicate ((8 - length (base32_encode p) mod 8) mod 8) (CHR ''='')"

section \<open>Properties\<close>

subsection \<open>Table lookup\<close>

lemma find_index_loop_notin: "c \<notin> set ts \<Longrightarrow> find_index_loop c ts i = -1"
  by (induction ts arbitrary: i) auto

lemma find_index_loop_in:
  "c \<in> set ts \<Longrightarrow> 0 \<le> i \<Longrightarrow>
     i \<le> find_index_loop c ts i \<and> find_index_loop c ts i < i + int (length ts)
     \<and> ts ! nat (find_index_loop c ts i - i) = c"
proof (induction ts arbitrary: i)
  case Nil
  then show ?case by simp
next
  case (Cons t ts)
  show ?case
  proof (cases "t = c")
    case True
    then show ?thesis by simp
  next
    case False
    with Cons.prems have "c \<in> set ts" by simp
    from Cons.IH [OF this, of "i + 1"] Cons.prems(2) False
    show ?thesis by (auto simp: nat_diff_distrib nat_add_distrib)
  qed
qed

lemma find_index_notin: "c \<notin> set table \<Longrightarrow> find_index c table = -1"
  by (simp add: find_index_def find_index_loop_notin)

lemma find_index_in:
  "c \<in> set table \<Longrightarrow>
     0 \<le> find_index c table \<and> find_index c table < int (length table)
     \<and> table ! nat (find_index c table) = c"
  using find_index_loop_in [of c table 0] by (simp add: find_index_def)

lemma find_index_eq_minus1: "find_index c table = -1 \<longleftrightarrow> c \<notin> set table"
  using find_index_in [of c table] find_index_notin [of c table] by auto

lemma find_index_loop_nth:
  "distinct ts \<Longrightarrow> k < length ts \<Longrightarrow> find_index_loop (ts ! k) ts i = i + int k"
proof (induction ts arbitrary: i k)
  case Nil
  then show ?case by simp
next
  case (Cons t ts)
  then show ?case by (cases k) auto
qed

lemma find_index_nth:
  "distinct table \<Longrightarrow> k < length table \<Longrightarrow> find_index (table ! k) table = int k"
  by (simp add: find_index_def find_index_loop_nth)

subsection \<open>Base16 decoding\<close>

lemma base16_decode_loop_ok:
  "set s \<subseteq> set base16_table \<Longrightarrow>
     base16_decode_loop s acc = Inr (acc @ base16_pairs s)"
  by (induction s acc rule: base16_decode_loop.induct)
     (simp_all add: find_index_eq_minus1 Let_def)

lemma base16_decode_loop_bad:
  "even (length s) \<Longrightarrow> \<not> set s \<subseteq> set base16_table \<Longrightarrow>
     base16_decode_loop s acc = Inl InvalidCharacterError"
  by (induction s acc rule: base16_decode_loop.induct)
     (auto simp add: find_index_eq_minus1 Let_def)

lemma length_base16_pairs: "length (base16_pairs s) = length s div 2"
  by (induction s rule: base16_pairs.induct) simp_all

lemma base16_pairs_nth:
  "i < length s div 2 \<Longrightarrow>
     base16_pairs s ! i =
       word_of_int (push_bit 4 (find_index (s ! (2 * i)) base16_table)
                    OR find_index (s ! (2 * i + 1)) base16_table)"
proof (induction s arbitrary: i rule: base16_pairs.induct)
  case (1 h l rest)
  then show ?case by (cases i) simp_all
qed simp_all

text \<open>
  C3: \<open>base16_decode\<close> fails with a length error on every input of odd length; on an
  input of even length it fails with an invalid-character error when some character is not
  in the upper-case Base16 table, in particular when a lower-case hex digit occurs;
  otherwise it succeeds with exactly \<open>len / 2\<close> bytes, byte \<open>i\<close> being
  \<open>(high << 4) | low\<close> of the table indices (each between 0 and 15) of the symbols
  \<open>2i\<close> and \<open>2i + 1\<close>.
\<close>

theorem base16_decode_spec:
  "(odd (length s) \<longrightarrow> base16_decode s = Inl LengthError) \<and>
   (even (length s) \<and> \<not> set s \<subseteq> set base16_table \<longrightarrow>
      base16_decode s = Inl InvalidCharacterError) \<and>
   (even (length s) \<and> set s \<inter> set ''abcdef'' \<noteq> {} \<longrightarrow>
      base16_decode s = Inl InvalidCharacterError) \<and>
   (even (length s) \<and> set s \<subseteq> set base16_table \<longrightarrow>
      (\<exists>out. base16_decode s = Inr out \<and> length out = length s div 2 \<and>
         (\<forall>i < length s div 2.
            0 \<le> find_index (s ! (2 * i)) base16_table \<and>
            find_index (s ! (2 * i)) base16_table < 16 \<and>
            0 \<le> find_index (s ! (2 * i + 1)) base16_table \<and>
            find_index (s ! (2 * i + 1)) base16_table < 16 \<and>
            out ! i = word_of_int (push_bit 4 (find_index (s ! (2 * i)) base16_table)
                                   OR find_index (s ! (2 * i + 1)) base16_table))))"
proof (intro conjI impI)
  assume "odd (length s)"
  then show "base16_decode s = Inl LengthError"
    by (simp add: base16_decode_def odd_iff_mod_2_eq_one)
next
  assume "even (length s) \<and> \<not> set s \<subseteq> set base16_table"
  then show "base16_decode s = Inl InvalidCharacterError"
    by (simp add: base16_decode_def base16_decode_loop_bad)
next
  assume a: "even (length s) \<and> set s \<inter> set ''abcdef'' \<noteq> {}"
  then obtain c where "c \<in> set s" "c \<in> set ''abcdef''" by blast
  moreover have "set ''abcdef'' \<inter> set base16_table = {}"
    by (simp add: base16_table_def)
  ultimately have "\<not> set s \<subseteq> set base16_table" by blast
  with a show "base16_decode s = Inl InvalidCharacterError"
    by (simp add: base16_decode_def base16_decode_loop_bad)
next
  assume a: "even (length s) \<and> set s \<subseteq> set base16_table"
  have len: "length base16_table = 16" by (simp add: base16_table_def)
  have idx: "0 \<le> find_index (s ! k) base16_table \<and> find_index (s ! k) base16_table < 16"
    if "k < length s" for k
  proof -
    from that a have "s ! k \<in> set base16_table" by (meson nth_mem subsetD)
    from find_index_in [OF this] len show ?thesis by simp
  qed
  have "base16_decode s = Inr (base16_pairs s)"
    using a by (simp add: base16_decode_def base16_decode_loop_ok)
  moreover have "length (base16_pairs s) = length s div 2"
    by (rule length_base16_pairs)
  moreover have "\<forall>i < length s div 2.
            0 \<le> find_index (s ! (2 * i)) base16_table \<and>
            find_index (s ! (2 * i)) base16_table < 16 \<and>
            0 \<le> find_index (s ! (2 * i + 1)) base16_table \<and>
            find_index (s ! (2 * i + 1)) base16_table < 16 \<and>
            base16_pairs s ! i = word_of_int (push_bit 4 (find_index (s ! (2 * i)) base16_table)
                                   OR find_index (s ! (2 * i + 1)) base16_table)"
  proof (intro allI impI)
    fix i assume i: "i < length s div 2"
    then have "2 * i < length s" "2 * i + 1 < length s" using a by auto
    with idx base16_pairs_nth [OF i] show "0 \<le> find_index (s ! (2 * i)) base16_table \<and>
            find_index (s ! (2 * i)) base16_table < 16 \<and>
            0 \<le> find_index (s ! (2 * i + 1)) base16_table \<and>
            find_index (s ! (2 * i + 1)) base16_table < 16 \<and>
            base16_pairs s ! i = word_of_int (push_bit 4 (find_index (s ! (2 * i)) base16_table)
                                   OR find_index (s ! (2 * i + 1)) base16_table)"
      by blast
  qed
  ultimately show "\<exists>out. base16_decode s = Inr out \<and> length out = length s div 2 \<and>
         (\<forall>i < length s div 2.
            0 \<le> find_index (s ! (2 * i)) base16_table \<and>
            find_index (s ! (2 * i)) base16_table < 16 \<and>
            0 \<le> find_index (s ! (2 * i + 1)) base16_table \<and>
            find_index (s ! (2 * i + 1)) base16_table < 16 \<and>
            out ! i = word_of_int (push_bit 4 (find_index (s ! (2 * i)) base16_table)
                                   OR find_index (s ! (2 * i + 1)) base16_table))"
    by blast
qed

theorem base16_decode_spec_witness:
  "odd (length ''ABC'') \<and> base16_decode ''ABC'' = Inl LengthError \<and>
   even (length ''0g'') \<and> \<not> set ''0g'' \<subseteq> set base16_table \<and>
   base16_decode ''0g'' = Inl InvalidCharacterError \<and>
   even (length ''ab'') \<and> set ''ab'' \<inter> set ''abcdef'' \<noteq> {} \<and>
   base16_decode ''ab'' = Inl InvalidCharacterError \<and>
   even (length ''ABCD'') \<and> set ''ABCD'' \<subseteq> set base16_table \<and>
   (\<exists>out. base16_decode ''ABCD'' = Inr out \<and> length out = 2) \<and>
   base16_decode ''ABCD'' = Inr [0xAB, 0xCD]"
proof -
  have h1: "odd (length ''ABC'')" by simp
  have h2: "even (length ''0g'') \<and> \<not> set ''0g'' \<subseteq> set base16_table"
    by (simp add: base16_table_def)
  have h3: "even (length ''ab'') \<and> set ''ab'' \<inter> set ''abcdef'' \<noteq> {}" by simp
  have h4: "even (length ''ABCD'') \<and> set ''ABCD'' \<subseteq> set base16_table"
    by (simp add: base16_table_def)
  have r1: "base16_decode ''ABC'' = Inl LengthError"
    using base16_decode_spec [of "''ABC''"] h1 by blast
  have r2: "base16_decode ''0g'' = Inl InvalidCharacterError"
    using base16_decode_spec [of "''0g''"] h2 by blast
  have r3: "base16_decode ''ab'' = Inl InvalidCharacterError"
    using base16_decode_spec [of "''ab''"] h3 by blast
  have r4: "\<exists>out. base16_decode ''ABCD'' = Inr out \<and> length out = 2"
    using base16_decode_spec [of "''ABCD''"] h4 by auto
  have r5: "base16_decode ''ABCD'' = Inr [0xAB, 0xCD]"
    by (simp add: base16_decode_def base16_table_def find_index_def)
  from h1 h2 h3 h4 r1 r2 r3 r4 r5 show ?thesis by blast
qed

subsection \<open>Carry loops and zero-length inputs\<close>

lemma base58_encode_flush_0: "base58_encode_flush 0 r = r"
  by (simp add: base58_encode_flush.simps [of 0])

lemma base58_encode_flush_pos:
  "0 < c \<Longrightarrow> base58_encode_flush c r = base58_encode_flush (c div 58) (r @ [c mod 58])"
  by (subst base58_encode_flush.simps) simp

lemma base62_encode_flush_0: "base62_encode_flush 0 r = r"
  by (simp add: base62_encode_flush.simps [of 0])

lemma base62_encode_flush_pos:
  "0 < c \<Longrightarrow> base62_encode_flush c r = base62_encode_flush (c div 62) (r @ [c mod 62])"
  by (subst base62_encode_flush.simps) simp

lemma flush256_0: "flush256 0 r = r"
  by (simp add: flush256.simps [of 0])

lemma flush256_pos: "0 < c \<Longrightarrow> flush256 c r = flush256 (c div 256) (r @ [c mod 256])"
  by (subst flush256.simps) simp

lemma padded_len8_0: "padded_len8 0 = 0"
  by (simp add: padded_len8.simps [of 0])

lemma padded_len4_0: "padded_len4 0 = 0"
  by (simp add: padded_len4.simps [of 0])

lemma base62_encode_main_zero: "base62_encode_main (0 # bs) [] = base62_encode_main bs []"
  by (simp add: base62_encode_flush_0)

lemma base62_encode_main_dropWhile:
  "base62_encode_main input [] = base62_encode_main (dropWhile (\<lambda>b. b = 0) input) []"
proof (induction input)
  case Nil
  show ?case by simp
next
  case (Cons b bs)
  show ?case
  proof (cases "b = 0")
    case True
    with Cons.IH show ?thesis by (simp add: base62_encode_main_zero del: base62_encode_main.simps)
  next
    case False
    then show ?thesis by simp
  qed
qed

lemma base62_encode_main_zeros: "base62_encode_main (replicate n 0 @ p) [] = base62_encode_main p []"
  by (induction n) (simp_all only: replicate.simps append.simps base62_encode_main_zero)

text \<open>
  C9: \<open>base62_encode\<close> discards leading zero bytes. The encoding of a payload is the
  encoding of the payload without its leading \<open>0x00\<close> bytes; a payload of zero bytes
  only, such as \<open>[0x00]\<close>, encodes to the empty string, so the byte length of the
  payload is not kept.
\<close>

theorem base62_encode_discards_leading_zeros:
  "base62_encode input = base62_encode (dropWhile (\<lambda>b. b = 0) input) \<and>
   base62_encode (replicate n 0 @ input) = base62_encode input \<and>
   base62_encode (replicate n 0) = [] \<and>
   base62_encode [0] = []"
  using base62_encode_main_zeros [of n input] base62_encode_main_zeros [of n "[]"]
    base62_encode_main_dropWhile [of input] base62_encode_main_zero [of "[]"]
  by (simp add: base62_encode_def)

text \<open>
  C2: \<open>base58_encode\<close> is to emit one \<open>'1'\<close> per leading zero byte, before the
  digits of the remaining bytes. The code starts the digit accumulator with one zero digit
  per leading zero byte and then overwrites the \<open>'1'\<close> prefix with the accumulator, so
  the digits of the remaining bytes take the place of the prefix: \<open>[0x00]\<close> gives
  \<open>"1"\<close>, but \<open>[0x00, 0x00, 0x01]\<close> gives \<open>"12"\<close> and not \<open>"11"\<close> followed by
  the encoding \<open>"2"\<close> of \<open>[0x01]\<close>.
\<close>

theorem base58_encode_leading_zeros_eval:
  "base58_encode [0] = ''1'' \<and> base58_encode [1] = ''2'' \<and>
   base58_encode [0, 0, 1] = ''12'' \<and> base58_encode [0, 0, 1] \<noteq> ''11'' @ base58_encode [1]"
  by (simp add: base58_encode_def base58_encode_flush_0 base58_encode_flush_pos base58_table_def)

text \<open>
  The example of the function's own comment, \<open>{0x00, 0xAB, 0xCD}\<close>, has no leading
  \<open>'1'\<close> in the code's output.
\<close>

lemma base58_doc_example: "base58_encode [0x00, 0xAB, 0xCD] = ''E5J''"
  by (simp add: base58_encode_def base58_encode_flush_0 base58_encode_flush_pos base58_table_def)

text \<open>
  C4, as stated (the empty text decodes to the empty payload in every format), fails for
  Base62 and Base85: both decoders return \<open>NULL\<close> on an input of length 0.
\<close>

theorem zero_length_decode_counterexample:
  "base62_decode [] \<noteq> Inr [] \<and> base85_decode [] \<noteq> Inr []"
  by (simp add: base62_decode_def base85_decode_def)

text \<open>
  C4, amended: in all six formats the empty payload encodes to the empty text; the empty
  text decodes to the empty payload in Base16, Base32, Base58 and Base64, and is refused
  by the length-0 guard of \<open>base62_decode\<close> and \<open>base85_decode\<close>.
\<close>

theorem zero_length_amended:
  "base16_encode [] = [] \<and> base32_encode [] = [] \<and> base58_encode [] = [] \<and>
   base62_encode [] = [] \<and> base64_encode [] = [] \<and> base85_encode [] = [] \<and>
   base16_decode [] = Inr [] \<and> base32_decode [] = Inr [] \<and> base58_decode [] = Inr [] \<and>
   base64_decode [] = Inr [] \<and>
   base62_decode [] = Inl EmptyInputError \<and> base85_decode [] = Inl EmptyInputError"
  by (simp add: base32_encode_def base58_encode_def base62_encode_def base64_encode_def
      base85_encode_def base16_decode_def base32_decode_def base58_decode_def
      base64_decode_def base62_decode_def base85_decode_def padded_len8_0
      padded_len4_0 strncpy_def)

subsection \<open>Base64 encoding\<close>

lemma mask_numerals32:
  "(0x1F :: 32 word) = mask 5" "(0x3F :: 32 word) = mask 6" "(0xFF :: 32 word) = mask 8"
  by (simp_all add: mask_eq_exp_minus_1)

lemma mask_numerals64: "(0xFF :: 64 word) = mask 8"
  by (simp add: mask_eq_exp_minus_1)

lemma mask_numerals8:
  "(3 :: byte) = mask 2" "(0x0F :: byte) = mask 4" "(0x3F :: byte) = mask 6"
  "(7 :: byte) = mask 3" "(1 :: byte) = mask 1" "(0x1F :: byte) = mask 5"
  by (simp_all add: mask_eq_exp_minus_1)

lemma bit_byte_less: "bit (a :: byte) n \<Longrightarrow> n < 8"
  by (drule bit_imp_le_length) simp

lemma unat_and_mask_less: "unat ((w :: 'a::len word) AND mask n) < 2 ^ n"
proof -
  have "unat (take_bit n w) = take_bit n (unat w)" by (rule unsigned_take_bit_eq)
  then show ?thesis by (simp flip: take_bit_eq_mask)
qed

lemma unat_and_3F: "unat ((w :: 32 word) AND 0x3F) < 64"
  using unat_and_mask_less [of w 6] by (simp add: mask_numerals32)

lemma base64_table_length: "length base64_table = 64"
  by (simp add: base64_table_def)

lemma base64_table_no_pad: "CHR ''='' \<notin> set base64_table"
  by (simp add: base64_table_def)

lemma base64_symbol_no_pad: "base64_table ! unat ((w :: 32 word) AND 0x3F) \<noteq> CHR ''=''"
proof -
  have "base64_table ! unat (w AND 0x3F) \<in> set base64_table"
    using unat_and_3F [of w] by (simp add: base64_table_length)
  with base64_table_no_pad show ?thesis by metis
qed

lemma base64_encode_loop_acc:
  "base64_encode_loop p acc = acc @ base64_encode_loop p []"
proof (induction "length p" arbitrary: p acc rule: less_induct)
  case less
  show ?case
  proof (cases p)
    case Nil
    then show ?thesis by simp
  next
    case (Cons b0 bs)
    then have l: "length (drop 2 bs) < length p" by simp
    show ?thesis
      using less [OF l, of "acc @ base64_encode_group b0 bs"]
        less [OF l, of "base64_encode_group b0 bs"] Cons
      by simp
  qed
qed

lemma base64_encode_Cons:
  "base64_encode (b0 # bs) = base64_encode_group b0 bs @ base64_encode (drop 2 bs)"
  using base64_encode_loop_acc [of "drop 2 bs" "base64_encode_group b0 bs"]
  by (simp add: base64_encode_def)

lemma length_base64_encode_group: "length (base64_encode_group b0 bs) = 4"
  by (simp add: base64_encode_group_def Let_def)

lemma ceil3_step: "4 + 4 * ((m + 2) div 3) = 4 * ((m + 3 + 2) div (3::nat))"
proof -
  have "(m + 3 + 2) div 3 = (m + 2 + 3) div 3" by (simp add: ac_simps)
  also have "\<dots> = (m + 2) div 3 + 1" by (rule div_add_self2) simp
  finally show ?thesis by simp
qed

lemma length_base64_encode_aux:
  "length (base64_encode p) = 4 * ((length p + 2) div 3)"
proof (induction "length p" arbitrary: p rule: less_induct)
  case less
  show ?case
  proof (cases p)
    case Nil
    then show ?thesis by (simp add: base64_encode_def)
  next
    case (Cons b0 bs)
    then have l: "length (drop 2 bs) < length p" by simp
    have e: "length (base64_encode p) = 4 + 4 * ((length (drop 2 bs) + 2) div 3)"
      using less [OF l] Cons by (simp only: base64_encode_Cons length_append length_base64_encode_group)
    show ?thesis
    proof (cases "2 \<le> length bs")
      case True
      then obtain n where n: "length bs = n + 2" using le_Suc_ex by (metis add.commute)
      then have "length (drop 2 bs) = n" "length p = n + 3" using Cons by simp_all
      with e ceil3_step [of n] show ?thesis by simp
    next
      case False
      then have "length bs = 0 \<or> length bs = 1" by linarith
      with e Cons show ?thesis by auto
    qed
  qed
qed

lemma unat_ucast_byte32: "unat (ucast (x :: byte) :: 32 word) = unat x"
  by (simp add: unsigned_ucast_eq take_bit_nat_eq_self unsigned_less [of x, simplified]
      order_less_trans [OF unsigned_less [of x, simplified]])

lemma base64_encode_group3:
  "base64_encode_group a (b # c # rest) =
     [base64_table ! unat (drop_bit 2 a),
      base64_table ! unat (push_bit 4 (a AND 3) OR drop_bit 4 b),
      base64_table ! unat (push_bit 2 (b AND 0x0F) OR drop_bit 6 c),
      base64_table ! unat (c AND 0x3F)]"
proof -
  define v :: "32 word" where "v = push_bit 16 (ucast a) OR push_bit 8 (ucast b) OR ucast c"
  have e0: "drop_bit 18 v AND 0x3F = ucast (drop_bit 2 a)"
    unfolding v_def mask_numerals32 mask_numerals8
    by (rule bit_word_eqI) (auto simp: bit_simps dest: bit_byte_less)
  have e1: "drop_bit 12 v AND 0x3F = ucast (push_bit 4 (a AND 3) OR drop_bit 4 b)"
    unfolding v_def mask_numerals32 mask_numerals8
    by (rule bit_word_eqI) (auto simp: bit_simps dest: bit_byte_less)
  have e2: "drop_bit 6 v AND 0x3F = ucast (push_bit 2 (b AND 0x0F) OR drop_bit 6 c)"
    unfolding v_def mask_numerals32 mask_numerals8
    by (rule bit_word_eqI) (auto simp: bit_simps dest: bit_byte_less)
  have e3: "v AND 0x3F = ucast (c AND 0x3F)"
    unfolding v_def mask_numerals32 mask_numerals8
    by (rule bit_word_eqI) (auto simp: bit_simps dest: bit_byte_less)
  have g: "base64_encode_group a (b # c # rest) =
     [base64_table ! unat (drop_bit 18 v AND 0x3F), base64_table ! unat (drop_bit 12 v AND 0x3F),
      base64_table ! unat (drop_bit 6 v AND 0x3F), base64_table ! unat (v AND 0x3F)]"
    unfolding base64_encode_group_def Let_def v_def
    by (simp only: list.size nth_Cons_0 nth_Cons_Suc One_nat_def) simp
  show ?thesis
    unfolding g e0 e1 e2 e3 unat_ucast_byte32 ..
qed


lemma base64_encode_group2:
  "base64_encode_group a [b] =
     [base64_table ! unat (drop_bit 2 a),
      base64_table ! unat (push_bit 4 (a AND 3) OR drop_bit 4 b),
      base64_table ! unat (push_bit 2 (b AND 0x0F)),
      CHR ''='']"
proof -
  define v :: "32 word" where "v = push_bit 16 (ucast a) OR push_bit 8 (ucast b) OR 0"
  have e0: "drop_bit 18 v AND 0x3F = ucast (drop_bit 2 a)"
    unfolding v_def mask_numerals32 mask_numerals8
    by (rule bit_word_eqI) (auto simp: bit_simps dest: bit_byte_less)
  have e1: "drop_bit 12 v AND 0x3F = ucast (push_bit 4 (a AND 3) OR drop_bit 4 b)"
    unfolding v_def mask_numerals32 mask_numerals8
    by (rule bit_word_eqI) (auto simp: bit_simps dest: bit_byte_less)
  have e2: "drop_bit 6 v AND 0x3F = ucast (push_bit 2 (b AND 0x0F))"
    unfolding v_def mask_numerals32 mask_numerals8
    by (rule bit_word_eqI) (auto simp: bit_simps dest: bit_byte_less)
  have g: "base64_encode_group a [b] =
     [base64_table ! unat (drop_bit 18 v AND 0x3F), base64_table ! unat (drop_bit 12 v AND 0x3F),
      base64_table ! unat (drop_bit 6 v AND 0x3F), CHR ''='']"
    unfolding base64_encode_group_def Let_def v_def
    by (simp only: list.size nth_Cons_0 nth_Cons_Suc One_nat_def) simp
  show ?thesis
    unfolding g e0 e1 e2 unat_ucast_byte32 ..
qed

lemma base64_encode_group1:
  "base64_encode_group a [] =
     [base64_table ! unat (drop_bit 2 a),
      base64_table ! unat (push_bit 4 (a AND 3)),
      CHR ''='', CHR ''='']"
proof -
  define v :: "32 word" where "v = push_bit 16 (ucast a) OR push_bit 8 0 OR 0"
  have e0: "drop_bit 18 v AND 0x3F = ucast (drop_bit 2 a)"
    unfolding v_def mask_numerals32 mask_numerals8
    by (rule bit_word_eqI) (auto simp: bit_simps dest: bit_byte_less)
  have e1: "drop_bit 12 v AND 0x3F = ucast (push_bit 4 (a AND 3))"
    unfolding v_def mask_numerals32 mask_numerals8
    by (rule bit_word_eqI) (auto simp: bit_simps dest: bit_byte_less)
  have g: "base64_encode_group a [] =
     [base64_table ! unat (drop_bit 18 v AND 0x3F), base64_table ! unat (drop_bit 12 v AND 0x3F),
      CHR ''='', CHR ''='']"
    unfolding base64_encode_group_def Let_def v_def
    by (simp only: list.size nth_Cons_0 nth_Cons_Suc One_nat_def) simp
  show ?thesis
    unfolding g e0 e1 unat_ucast_byte32 ..
qed

lemma base64_encode_group_no_pad:
  "2 \<le> length bs \<Longrightarrow> CHR ''='' \<notin> set (base64_encode_group b0 bs)"
  using base64_symbol_no_pad by (simp add: base64_encode_group_def Let_def) metis

lemma base64_encode_group_pad1:
  "length bs = 1 \<Longrightarrow>
     \<exists>body. base64_encode_group b0 bs = body @ [CHR ''=''] \<and> CHR ''='' \<notin> set body"
proof -
  assume l: "length bs = 1"
  define v :: "32 word" where
    "v = push_bit 16 (ucast b0) OR push_bit 8 (ucast (bs ! 0)) OR 0"
  have "base64_encode_group b0 bs =
     [base64_table ! unat (drop_bit 18 v AND 0x3F), base64_table ! unat (drop_bit 12 v AND 0x3F),
      base64_table ! unat (drop_bit 6 v AND 0x3F)] @ [CHR ''='']"
    using l unfolding base64_encode_group_def Let_def v_def by simp
  moreover have "CHR ''='' \<notin> set [base64_table ! unat (drop_bit 18 v AND 0x3F),
      base64_table ! unat (drop_bit 12 v AND 0x3F), base64_table ! unat (drop_bit 6 v AND 0x3F)]"
    using base64_symbol_no_pad by (simp, metis)
  ultimately show ?thesis by blast
qed

lemma base64_encode_group_pad2:
  "\<exists>body. base64_encode_group b0 [] = body @ [CHR ''='', CHR ''=''] \<and> CHR ''='' \<notin> set body"
proof -
  define v :: "32 word" where "v = push_bit 16 (ucast b0) OR push_bit 8 0 OR 0"
  have "base64_encode_group b0 [] =
     [base64_table ! unat (drop_bit 18 v AND 0x3F), base64_table ! unat (drop_bit 12 v AND 0x3F)]
       @ [CHR ''='', CHR ''='']"
    unfolding base64_encode_group_def Let_def v_def by simp
  moreover have "CHR ''='' \<notin> set [base64_table ! unat (drop_bit 18 v AND 0x3F),
      base64_table ! unat (drop_bit 12 v AND 0x3F)]"
    using base64_symbol_no_pad by (simp, metis)
  ultimately show ?thesis by blast
qed

lemma base64_encode_pad:
  "\<exists>body. base64_encode p = body @ replicate ((3 - length p mod 3) mod 3) (CHR ''='')
      \<and> CHR ''='' \<notin> set body"
proof (induction "length p" arbitrary: p rule: less_induct)
  case less
  show ?case
  proof (cases p)
    case Nil
    then show ?thesis by (simp add: base64_encode_def)
  next
    case (Cons b0 bs)
    consider "bs = []" | "length bs = 1" | "2 \<le> length bs" by (cases bs) (auto simp: Suc_le_eq)
    then show ?thesis
    proof cases
      case 1
      with Cons base64_encode_group_pad2 [of b0] show ?thesis
        by (simp add: base64_encode_Cons base64_encode_def numeral_2_eq_2)
    next
      case 2
      with Cons base64_encode_group_pad1 [of bs b0] show ?thesis
        by (simp add: base64_encode_Cons base64_encode_def)
    next
      case 3
      then obtain n where n: "length bs = n + 2" using le_Suc_ex by (metis add.commute)
      with Cons have l: "length (drop 2 bs) < length p" and m: "length p = length (drop 2 bs) + 3"
        by simp_all
      from less [OF l] obtain body where
        b: "base64_encode (drop 2 bs) = body @ replicate ((3 - length (drop 2 bs) mod 3) mod 3) (CHR ''='')"
          "CHR ''='' \<notin> set body" by blast
      have "length p mod 3 = length (drop 2 bs) mod 3"
        by (simp only: m mod_add_self2)
      then have "base64_encode p = (base64_encode_group b0 bs @ body)
          @ replicate ((3 - length p mod 3) mod 3) (CHR ''='')"
        using b(1) Cons by (simp only: base64_encode_Cons append_assoc)
      moreover have "CHR ''='' \<notin> set (base64_encode_group b0 bs @ body)"
        using b(2) base64_encode_group_no_pad [OF 3] by simp
      ultimately show ?thesis by blast
    qed
  qed
qed

text \<open>
  C6: for a payload of length \<open>n\<close>, \<open>base64_encode\<close> returns \<open>4 * ceil(n / 3)\<close>
  symbols. Three input bytes give four symbols, the four 6-bit groups of the 24 bits taken
  from the most significant end, and encoding continues with the rest. A final group of two
  bytes (one byte missing) ends in one \<open>'='\<close>, a final group of one byte (two bytes
  missing) in two; no other \<open>'='\<close> occurs. The bytes of \<open>"Man"\<close> encode to
  \<open>"TWFu"\<close>.
\<close>

theorem base64_encode_spec:
  "length (base64_encode p) = 4 * ((length p + 2) div 3) \<and>
   (\<exists>body. base64_encode p = body @ replicate ((3 - length p mod 3) mod 3) (CHR ''='')
      \<and> CHR ''='' \<notin> set body) \<and>
   base64_encode (a # b # c # rest) =
     [base64_table ! unat (drop_bit 2 a),
      base64_table ! unat (push_bit 4 (a AND 3) OR drop_bit 4 b),
      base64_table ! unat (push_bit 2 (b AND 0x0F) OR drop_bit 6 c),
      base64_table ! unat (c AND 0x3F)] @ base64_encode rest \<and>
   base64_encode [a, b] =
     [base64_table ! unat (drop_bit 2 a),
      base64_table ! unat (push_bit 4 (a AND 3) OR drop_bit 4 b),
      base64_table ! unat (push_bit 2 (b AND 0x0F)),
      CHR ''=''] \<and>
   base64_encode [a] =
     [base64_table ! unat (drop_bit 2 a),
      base64_table ! unat (push_bit 4 (a AND 3)),
      CHR ''='', CHR ''=''] \<and>
   base64_encode (map (of_nat \<circ> of_char) ''Man'') = ''TWFu''"
proof (intro conjI)
  show "length (base64_encode p) = 4 * ((length p + 2) div 3)"
    by (rule length_base64_encode_aux)
  show "\<exists>body. base64_encode p = body @ replicate ((3 - length p mod 3) mod 3) (CHR ''='')
      \<and> CHR ''='' \<notin> set body"
    by (rule base64_encode_pad)
  show "base64_encode (a # b # c # rest) =
     [base64_table ! unat (drop_bit 2 a),
      base64_table ! unat (push_bit 4 (a AND 3) OR drop_bit 4 b),
      base64_table ! unat (push_bit 2 (b AND 0x0F) OR drop_bit 6 c),
      base64_table ! unat (c AND 0x3F)] @ base64_encode rest"
    by (simp only: base64_encode_Cons base64_encode_group3) simp
  show "base64_encode [a, b] =
     [base64_table ! unat (drop_bit 2 a),
      base64_table ! unat (push_bit 4 (a AND 3) OR drop_bit 4 b),
      base64_table ! unat (push_bit 2 (b AND 0x0F)),
      CHR ''='']"
    by (simp only: base64_encode_Cons base64_encode_group2) (simp add: base64_encode_def)
  show "base64_encode [a] =
     [base64_table ! unat (drop_bit 2 a),
      base64_table ! unat (push_bit 4 (a AND 3)),
      CHR ''='', CHR ''='']"
    by (simp only: base64_encode_Cons base64_encode_group1) (simp add: base64_encode_def)
  show "base64_encode (map (of_nat \<circ> of_char) ''Man'') = ''TWFu''"
    by (simp add: base64_encode_def base64_encode_group_def base64_table_def)
qed

subsection \<open>Base32 encoding\<close>

lemma unat_shift_in_byte:
  "unat (push_bit 8 val OR ucast (b :: byte) :: 32 word) = (256 * unat val + unat b) mod 2 ^ 32"
proof -
  have "push_bit 8 val + (ucast b :: 32 word) = push_bit 8 val OR ucast b"
    by (rule disjunctive_add_eq_or, rule bit_word_eqI) (auto simp: bit_simps dest: bit_byte_less)
  then have "unat (push_bit 8 val OR ucast b :: 32 word) = unat (val * 2 ^ 8 + ucast b)"
    by (simp add: push_bit_eq_mult)
  also have "\<dots> = (unat val * 2 ^ 8 mod 2 ^ 32 + unat b) mod 2 ^ 32"
    by (simp only: unat_word_ariths unat_ucast_byte32) simp
  also have "\<dots> = (256 * unat val + unat b) mod 2 ^ 32"
    by (simp add: mod_simps mult.commute)
  finally show ?thesis .
qed

lemma unat_drop_and_1F:
  "unat (drop_bit k (val :: 32 word) AND 0x1F) = unat val div 2 ^ k mod 32"
proof -
  have "unat (take_bit 5 (drop_bit k val)) = take_bit 5 (drop_bit k (unat val))"
    by (simp add: unsigned_take_bit_eq unat_drop_bit_eq)
  then show ?thesis
    by (simp add: mask_numerals32 take_bit_eq_mod drop_bit_eq_div flip: take_bit_eq_mask)
qed

lemma unat_push_and_1F:
  "unat (push_bit s (val :: 32 word) AND 0x1F) = unat val * 2 ^ s mod 32"
proof -
  have "unat (take_bit 5 (push_bit s val)) = take_bit 5 (take_bit 32 (push_bit s (unat val)))"
    by (simp add: unsigned_take_bit_eq unsigned_push_bit_eq)
  also have "\<dots> = take_bit 5 (push_bit s (unat val))"
    by simp
  finally show ?thesis
    by (simp add: mask_numerals32 take_bit_eq_mod push_bit_eq_mult flip: take_bit_eq_mask)
qed

lemma mod32_window:
  "e + 5 \<le> 32 \<Longrightarrow> (X mod 2 ^ 32) div 2 ^ e mod 32 = X div 2 ^ e mod (32 :: nat)"
proof -
  assume e: "e + 5 \<le> 32"
  have "take_bit 5 (drop_bit e (take_bit 32 X)) = take_bit 5 (drop_bit e X)"
    using e by (intro bit_eqI) (auto simp: bit_simps)
  then show ?thesis by (simp add: take_bit_eq_mod drop_bit_eq_div)
qed

lemma div_shift_byte:
  "b < 256 \<Longrightarrow> (256 * X + b) div 2 ^ (8 + e) = (X :: nat) div 2 ^ e"
proof -
  assume "b < 256"
  then have "(256 * X + b) div 256 = X" by simp
  moreover have "(256 * X + b) div 2 ^ (8 + e) = (256 * X + b) div 256 div 2 ^ e"
    by (simp add: power_add div_mult2_eq)
  ultimately show ?thesis by simp
qed

lemma div_shift_pad: "(X * 2 ^ pad) div 2 ^ (pad + e) = (X :: nat) div 2 ^ e"
  by (simp add: power_add flip: div_mult2_eq)


lemma be_value_Nil: "be_value [] = 0"
  by (simp add: be_value_def)

lemma be_value_snoc: "be_value (q @ [b]) = 256 * be_value q + unat b"
  by (simp add: be_value_def)

lemma base32_encode_emit_eq:
  "base32_encode_emit val c out =
     (c mod 5,
      out @ map (\<lambda>j. base32_table ! (unat val div 2 ^ (c - 5 * (j + 1)) mod 32)) [0..<c div 5])"
proof (induction val c out rule: base32_encode_emit.induct)
  case (1 val c out)
  show ?case
  proof (cases "5 \<le> c")
    case False
    then show ?thesis by (simp add: base32_encode_emit.simps [of val c out])
  next
    case True
    then obtain d where d: "c = d + 5" using le_Suc_ex by (metis add.commute)
    have m: "(d + 5) mod 5 = d mod 5" and v: "(d + 5) div 5 = Suc (d div 5)" by simp_all
    have "base32_encode_emit val c out =
       base32_encode_emit val d (out @ [base32_table ! (unat val div 2 ^ d mod 32)])"
      unfolding d by (simp add: base32_encode_emit.simps [of val "d + 5" out] unat_drop_and_1F)
    also have "\<dots> = (d mod 5,
      (out @ [base32_table ! (unat val div 2 ^ d mod 32)]) @
        map (\<lambda>j. base32_table ! (unat val div 2 ^ (d - 5 * (j + 1)) mod 32)) [0..<d div 5])"
      using "1.IH" [OF True] d by (simp add: unat_drop_and_1F)
    also have "\<dots> = (c mod 5,
      out @ map (\<lambda>j. base32_table ! (unat val div 2 ^ (c - 5 * (j + 1)) mod 32)) [0..<c div 5])"
      unfolding d m v by (simp add: map_upt_Suc del: upt_Suc)
    finally show ?thesis .
  qed
qed


lemma base32_step_symbols:
  assumes v1: "unat val1 = be_value (q @ [b]) mod 2 ^ 32"
    and bc: "bc = 8 * length q mod 5"
  shows "base32_prefix q @
           map (\<lambda>j. base32_table ! (unat val1 div 2 ^ (bc + 8 - 5 * (j + 1)) mod 32))
             [0..<(bc + 8) div 5]
         = base32_prefix (q @ [b])"
proof -
  define n8 where "n8 = 8 * length q"
  define k0 where "k0 = n8 div 5"
  have n8: "n8 = 5 * k0 + bc" and bc5: "bc < 5"
    unfolding k0_def bc n8_def by simp_all
  have len: "(n8 + 8) div 5 = k0 + (bc + 8) div 5"
    unfolding n8 by (simp add: add.assoc)
  have l8: "8 * length (q @ [b]) = n8 + 8"
    by (simp add: n8_def)
  show ?thesis
  proof (rule nth_equalityI)
    show "length (base32_prefix q @
           map (\<lambda>j. base32_table ! (unat val1 div 2 ^ (bc + 8 - 5 * (j + 1)) mod 32))
             [0..<(bc + 8) div 5]) = length (base32_prefix (q @ [b]))"
      unfolding base32_prefix_def l8 using len by (simp add: n8_def k0_def)
  next
    fix k
    assume "k < length (base32_prefix q @
           map (\<lambda>j. base32_table ! (unat val1 div 2 ^ (bc + 8 - 5 * (j + 1)) mod 32))
             [0..<(bc + 8) div 5])"
    then have k: "k < k0 + (bc + 8) div 5"
      by (simp add: base32_prefix_def n8_def k0_def)
    then have kr: "k < (n8 + 8) div 5" using len by simp
    have rhs: "base32_prefix (q @ [b]) ! k =
        base32_table ! (be_value (q @ [b]) div 2 ^ (n8 + 8 - 5 * (k + 1)) mod 32)"
      unfolding base32_prefix_def l8 using kr by simp
    show "(base32_prefix q @
           map (\<lambda>j. base32_table ! (unat val1 div 2 ^ (bc + 8 - 5 * (j + 1)) mod 32))
             [0..<(bc + 8) div 5]) ! k = base32_prefix (q @ [b]) ! k"
    proof (cases "k < k0")
      case True
      then have le: "5 * (k + 1) \<le> n8" unfolding n8 by simp
      have "(base32_prefix q @
           map (\<lambda>j. base32_table ! (unat val1 div 2 ^ (bc + 8 - 5 * (j + 1)) mod 32))
             [0..<(bc + 8) div 5]) ! k = base32_prefix q ! k"
        using True by (simp add: nth_append base32_prefix_def n8_def k0_def)
      also have "\<dots> = base32_table ! (be_value q div 2 ^ (n8 - 5 * (k + 1)) mod 32)"
        using True by (simp add: base32_prefix_def n8_def k0_def)
      also have "be_value q div 2 ^ (n8 - 5 * (k + 1)) =
          be_value (q @ [b]) div 2 ^ (8 + (n8 - 5 * (k + 1)))"
        unfolding be_value_snoc
        by (rule div_shift_byte [symmetric]) (use unsigned_less [of b] in simp)
      also have "8 + (n8 - 5 * (k + 1)) = n8 + 8 - 5 * (k + 1)"
        using le by simp
      finally show ?thesis using rhs by simp
    next
      case False
      define j where "j = k - k0"
      have kj: "k = k0 + j" using False by (simp add: j_def)
      have j: "j < (bc + 8) div 5" using k kj by simp
      then have le: "5 * (j + 1) \<le> bc + 8" by simp
      have ex: "n8 + 8 - 5 * (k + 1) = bc + 8 - 5 * (j + 1)"
        unfolding n8 kj by simp
      have w: "bc + 8 - 5 * (j + 1) + 5 \<le> 32" using bc5 by simp
      have "(base32_prefix q @
           map (\<lambda>j. base32_table ! (unat val1 div 2 ^ (bc + 8 - 5 * (j + 1)) mod 32))
             [0..<(bc + 8) div 5]) ! k =
          base32_table ! (unat val1 div 2 ^ (bc + 8 - 5 * (j + 1)) mod 32)"
        using j by (simp add: nth_append base32_prefix_def kj flip: k0_def n8_def)
      also have "\<dots> = base32_table ! (be_value (q @ [b]) div 2 ^ (bc + 8 - 5 * (j + 1)) mod 32)"
        unfolding v1 by (simp only: mod32_window [OF w])
      finally show ?thesis using rhs ex by simp
    qed
  qed
qed


lemma base32_encode_loop_inv:
  "unat val = be_value q mod 2 ^ 32 \<Longrightarrow> bc = 8 * length q mod 5 \<Longrightarrow>
     \<exists>val'. base32_encode_loop bs val bc (base32_prefix q) =
              (val', 8 * length (q @ bs) mod 5, base32_prefix (q @ bs))
            \<and> unat val' = be_value (q @ bs) mod 2 ^ 32"
proof (induction bs arbitrary: q val bc)
  case Nil
  then show ?case by simp
next
  case (Cons b bs)
  define val1 :: "32 word" where "val1 = push_bit 8 val OR ucast b"
  have "unat val1 = (256 * (be_value q mod 2 ^ 32) + unat b) mod 2 ^ 32"
    unfolding val1_def unat_shift_in_byte Cons.prems(1) ..
  also have "\<dots> = be_value (q @ [b]) mod 2 ^ 32"
    unfolding be_value_snoc by (metis mod_add_left_eq mod_mult_right_eq)
  finally have v1: "unat val1 = be_value (q @ [b]) mod 2 ^ 32" .
  have m: "(bc + 8) mod 5 = 8 * length (q @ [b]) mod 5"
    unfolding Cons.prems(2) by (simp add: mod_simps add.commute)
  have e: "base32_encode_emit val1 (bc + 8) (base32_prefix q) =
      (8 * length (q @ [b]) mod 5, base32_prefix (q @ [b]))"
    unfolding base32_encode_emit_eq base32_step_symbols [OF v1 Cons.prems(2)] m ..
  from Cons.IH [OF v1 refl, of ] obtain val' where
    "base32_encode_loop bs val1 (8 * length (q @ [b]) mod 5) (base32_prefix (q @ [b])) =
       (val', 8 * length ((q @ [b]) @ bs) mod 5, base32_prefix ((q @ [b]) @ bs))"
    "unat val' = be_value ((q @ [b]) @ bs) mod 2 ^ 32" by blast
  then show ?case
    by (simp add: e flip: val1_def)
qed

lemma base32_encode_closed_form:
  "base32_encode p =
     map (\<lambda>k. base32_table !
            (be_value p * 2 ^ (5 * ((8 * length p + 4) div 5) - 8 * length p)
               div 2 ^ (5 * ((8 * length p + 4) div 5 - 1 - k)) mod 32))
       [0..<(8 * length p + 4) div 5]"
proof -
  define n8 where "n8 = 8 * length p"
  define k0 where "k0 = n8 div 5"
  define bc where "bc = n8 mod 5"
  have n8: "n8 = 5 * k0 + bc" and bc5: "bc < 5" unfolding k0_def bc_def by simp_all
  from base32_encode_loop_inv [of 0 "[]" 0 p] obtain val where
    l: "base32_encode_loop p 0 0 [] = (val, bc, base32_prefix p)"
    and v: "unat val = be_value p mod 2 ^ 32"
    by (auto simp: be_value_Nil base32_prefix_def bc_def n8_def)
  show ?thesis
  proof (cases "bc = 0")
    case True
    then have m: "(n8 + 4) div 5 = k0" and pad: "5 * k0 - n8 = 0" unfolding n8 by simp_all
    have "base32_encode p = base32_prefix p"
      using True by (simp add: base32_encode_def l)
    also have "\<dots> = map (\<lambda>k. base32_table !
            (be_value p * 2 ^ (5 * k0 - n8) div 2 ^ (5 * (k0 - 1 - k)) mod 32)) [0..<k0]"
      unfolding base32_prefix_def pad
    proof (rule map_cong)
      show "[0..<8 * length p div 5] = [0..<k0]" by (simp add: k0_def n8_def)
    next
      fix k assume "k \<in> set [0..<k0]"
      then have "8 * length p - 5 * (k + 1) = 5 * (k0 - 1 - k)"
        using True n8 by (simp add: n8_def algebra_simps)
      then show "base32_table ! (be_value p div 2 ^ (8 * length p - 5 * (k + 1)) mod 32) =
        base32_table ! (be_value p * 2 ^ 0 div 2 ^ (5 * (k0 - 1 - k)) mod 32)" by simp
    qed
    finally show ?thesis unfolding m [unfolded n8_def] n8_def .
  next
    case False
    then have m: "(n8 + 4) div 5 = Suc k0" and pad: "5 * Suc k0 - n8 = 5 - bc"
      unfolding n8 using bc5 by simp_all
    have "unat val * 2 ^ (5 - bc) mod 32 = be_value p * 2 ^ (5 - bc) mod 32"
    proof -
      have "be_value p mod 2 ^ 32 mod 32 = be_value p mod 32"
        by (rule mod_mod_cancel) simp
      then show ?thesis unfolding v by (metis mod_mult_left_eq)
    qed
    then have "base32_encode p =
        base32_prefix p @ [base32_table ! (be_value p * 2 ^ (5 - bc) mod 32)]"
      using False by (simp add: base32_encode_def l unat_push_and_1F)
    also have "\<dots> = map (\<lambda>k. base32_table !
            (be_value p * 2 ^ (5 - bc) div 2 ^ (5 * (Suc k0 - 1 - k)) mod 32)) [0..<Suc k0]"
    proof -
      have "base32_prefix p = map (\<lambda>k. base32_table !
            (be_value p * 2 ^ (5 - bc) div 2 ^ (5 * (Suc k0 - 1 - k)) mod 32)) [0..<k0]"
        unfolding base32_prefix_def
      proof (rule map_cong)
        show "[0..<8 * length p div 5] = [0..<k0]" by (simp add: k0_def n8_def)
      next
        fix k assume "k \<in> set [0..<k0]"
        then have "5 * (Suc k0 - 1 - k) = (5 - bc) + (8 * length p - 5 * (k + 1))"
          using n8 bc5 by (simp add: n8_def algebra_simps)
        then show "base32_table ! (be_value p div 2 ^ (8 * length p - 5 * (k + 1)) mod 32) =
          base32_table ! (be_value p * 2 ^ (5 - bc) div 2 ^ (5 * (Suc k0 - 1 - k)) mod 32)"
          by (simp only: div_shift_pad)
      qed
      then show ?thesis by simp
    qed
    finally show ?thesis unfolding m [unfolded n8_def] pad [unfolded n8_def, symmetric] n8_def
      by (simp only: m [unfolded n8_def])
  qed
qed


lemma base32_encode_emit_ge:
  "5 \<le> c \<Longrightarrow> base32_encode_emit val c out =
     base32_encode_emit val (c - 5) (out @ [base32_table ! unat (drop_bit (c - 5) val AND 0x1F)])"
  by (subst base32_encode_emit.simps) simp

lemma base32_encode_emit_less: "c < 5 \<Longrightarrow> base32_encode_emit val c out = (c, out)"
  by (subst base32_encode_emit.simps) simp

lemma base32_table_length: "length base32_table = 32"
  by (simp add: base32_table_def)

lemma base32_table_no_pad: "CHR ''='' \<notin> set base32_table"
  by (simp add: base32_table_def)

text \<open>
  C7: \<open>base32_encode\<close> reads the payload as a bit-stream, most significant bit first,
  five bits at a time across byte boundaries: with \<open>n\<close> the payload length,
  \<open>m = ceil(8n / 5)\<close> and the payload's big-endian value shifted left by the
  \<open>5m - 8n\<close> missing bits (zero-filled), symbol \<open>k\<close> is the table entry of the
  \<open>k\<close>-th 5-bit group from the top. The output has \<open>ceil(8n / 5)\<close> symbols, none of
  them the pad symbol, and the bytes of \<open>"Hello"\<close> encode to \<open>"JBSWY3DP"\<close>.
\<close>

theorem base32_encode_spec:
  "base32_encode p =
     map (\<lambda>k. base32_table !
            (be_value p * 2 ^ (5 * ((8 * length p + 4) div 5) - 8 * length p)
               div 2 ^ (5 * ((8 * length p + 4) div 5 - 1 - k)) mod 32))
       [0..<(8 * length p + 4) div 5] \<and>
   length (base32_encode p) = (8 * length p + 4) div 5 \<and>
   CHR ''='' \<notin> set (base32_encode p) \<and>
   base32_encode (map (of_nat \<circ> of_char) ''Hello'') = ''JBSWY3DP''"
proof (intro conjI)
  show "base32_encode p =
     map (\<lambda>k. base32_table !
            (be_value p * 2 ^ (5 * ((8 * length p + 4) div 5) - 8 * length p)
               div 2 ^ (5 * ((8 * length p + 4) div 5 - 1 - k)) mod 32))
       [0..<(8 * length p + 4) div 5]"
    by (rule base32_encode_closed_form)
  show "length (base32_encode p) = (8 * length p + 4) div 5"
    by (subst base32_encode_closed_form) simp
  show "CHR ''='' \<notin> set (base32_encode p)"
  proof -
    have "base32_table ! (x mod 32) \<in> set base32_table" for x
      by (simp add: base32_table_length)
    then have "set (base32_encode p) \<subseteq> set base32_table"
      by (subst base32_encode_closed_form) auto
    with base32_table_no_pad show ?thesis by blast
  qed
  show "base32_encode (map (of_nat \<circ> of_char) ''Hello'') = ''JBSWY3DP''"
    by (simp add: base32_encode_def base32_encode_emit_ge base32_encode_emit_less
        base32_table_def)
qed

subsection \<open>Base64 and Base32 decoding\<close>

lemma padded_len4_eq: "padded_len4 n = n + (4 - n mod 4) mod 4"
proof (induction n rule: padded_len4.induct)
  case (1 n)
  show ?case
  proof (cases "n mod 4 = 0")
    case True
    then show ?thesis by (simp add: padded_len4.simps [of n])
  next
    case False
    have r: "n mod 4 < 4" by simp
    have "padded_len4 n = n + 1 + (4 - (n + 1) mod 4) mod 4"
      using False "1.IH" by (simp add: padded_len4.simps [of n])
    also have "\<dots> = n + (4 - n mod 4) mod 4"
      using False r by (simp add: mod_Suc) linarith
    finally show ?thesis .
  qed
qed

lemma strncpy_no_nul: "CHR 0x00 \<notin> set s \<Longrightarrow> strncpy s (length s) = s"
proof -
  assume "CHR 0x00 \<notin> set s"
  then have tw: "takeWhile (\<lambda>c. c \<noteq> CHR 0x00) s = s"
    by (intro takeWhile_eq_all_conv [THEN iffD2]) auto
  have "strncpy s (length s) =
      takeWhile (\<lambda>c. c \<noteq> CHR 0x00) s
        @ replicate (length s - length (takeWhile (\<lambda>c. c \<noteq> CHR 0x00) s)) (CHR 0x00)"
    by (simp add: strncpy_def Let_def)
  also have "\<dots> = s" unfolding tw by simp
  finally show ?thesis .
qed

lemma length_strncpy: "length (strncpy s (length s)) = length s"
proof -
  have "length (takeWhile (\<lambda>c. c \<noteq> CHR 0x00) s) \<le> length s"
    by (rule length_takeWhile_le)
  then show ?thesis by (simp add: strncpy_def Let_def)
qed

lemma strncpy_nul: "CHR 0x00 \<in> set s \<Longrightarrow> CHR 0x00 \<in> set (strncpy s (length s))"
proof -
  assume "CHR 0x00 \<in> set s"
  then have "length (takeWhile (\<lambda>c. c \<noteq> CHR 0x00) s) < length s"
    by (induction s) auto
  then show ?thesis by (simp add: strncpy_def Let_def)
qed

lemma base64_nul_invalid: "CHR 0x00 \<noteq> CHR ''=''" "CHR 0x00 \<notin> set base64_table"
  by (simp_all add: base64_table_def)

lemma base64_valid_no_nul: "base64_valid s \<Longrightarrow> CHR 0x00 \<notin> set s"
  unfolding base64_valid_def list_all_iff using base64_nul_invalid by blast

lemma base64_valid_append:
  "base64_valid (s @ t) \<longleftrightarrow> base64_valid s \<and> base64_valid t"
  by (simp add: base64_valid_def)

lemma base64_valid_pad: "base64_valid (replicate k (CHR ''=''))"
  by (induction k) (simp_all add: base64_valid_def)

lemma base64_padded_invalid:
  assumes "\<not> base64_valid s"
  shows "\<not> base64_valid (strncpy s (length s) @ replicate k (CHR ''=''))"
proof (cases "CHR 0x00 \<in> set s")
  case True
  then have "\<not> base64_valid (strncpy s (length s))"
    using base64_valid_no_nul strncpy_nul by blast
  then show ?thesis by (simp only: base64_valid_append) simp
next
  case False
  with assms show ?thesis by (simp add: strncpy_no_nul [OF False] base64_valid_append)
qed

lemma base64_padded_valid:
  assumes "base64_valid s"
  shows "strncpy s (length s) @ replicate k (CHR ''='') = s @ replicate k (CHR ''='')"
    and "base64_valid (s @ replicate k (CHR ''=''))"
  using assms
  by (simp_all add: strncpy_no_nul [OF base64_valid_no_nul [OF assms]] base64_valid_append
      base64_valid_pad)

lemma base64_indices_eq:
  "base64_indices g = (if base64_valid g then Some (map base64_digit g) else None)"
  by (induction g)
     (auto simp: base64_valid_def base64_digit_def Let_def find_index_eq_minus1)

lemma base64_decode_loop_invalid:
  "length s mod 4 = 0 \<Longrightarrow> \<not> base64_valid s \<Longrightarrow>
     base64_decode_loop s acc = Inl InvalidCharacterError"
proof (induction s acc rule: base64_decode_loop.induct)
  case (1 c0 c1 c2 c3 rest acc)
  show ?case
  proof (cases "base64_valid [c0, c1, c2, c3]")
    case False
    then show ?thesis by (simp add: base64_indices_eq del: base64_indices.simps)
  next
    case True
    with "1.prems" have "\<not> base64_valid rest" "length rest mod 4 = 0"
      by (auto simp: base64_valid_def)
    with True "1.IH" show ?thesis
      by (simp add: base64_indices_eq del: base64_indices.simps)
  qed
qed (simp_all add: base64_valid_def)

lemma base64_decode_loop_valid:
  "base64_valid s \<Longrightarrow> base64_decode_loop s acc = Inr (acc @ base64_bytes s)"
proof (induction s acc rule: base64_decode_loop.induct)
  case (1 c0 c1 c2 c3 rest acc)
  then have v: "base64_valid [c0, c1, c2, c3]" "base64_valid rest"
    by (simp_all add: base64_valid_def)
  with "1.IH" show ?case
    by (simp add: base64_indices_eq del: base64_indices.simps)
qed simp_all

lemma length_base64_group:
  "length (base64_group g idx) =
     1 + of_bool (g ! 2 \<noteq> CHR ''='') + of_bool (g ! 3 \<noteq> CHR ''='')"
  by (simp add: base64_group_def Let_def)


lemma pad4_mod: "(n + (4 - n mod 4) mod 4) mod 4 = (0 :: nat)"
proof -
  define r where "r = n mod 4"
  have "r < 4" by (simp add: r_def)
  then consider "r = 0" | "r = 1" | "r = 2" | "r = 3" by linarith
  then have "(r + (4 - r) mod 4) mod 4 = 0" by cases simp_all
  then show ?thesis unfolding r_def by (simp only: mod_add_left_eq)
qed

lemma base64_decode_eq:
  "base64_decode s =
     (if base64_valid s
      then Inr (base64_bytes (s @ replicate ((4 - length s mod 4) mod 4) (CHR ''='')))
      else Inl InvalidCharacterError)"
proof -
  define k where "k = (4 - length s mod 4) mod 4"
  have d: "base64_decode s =
      base64_decode_loop (strncpy s (length s) @ replicate k (CHR ''='')) []"
    by (simp add: base64_decode_def Let_def padded_len4_eq k_def)
  show ?thesis
  proof (cases "base64_valid s")
    case True
    from base64_padded_valid [OF True, of k] show ?thesis
      unfolding d using True by (simp add: base64_decode_loop_valid k_def)
  next
    case False
    have "length (strncpy s (length s) @ replicate k (CHR ''='')) mod 4 = 0"
      by (simp add: length_strncpy k_def pad4_mod)
    from base64_decode_loop_invalid [OF this base64_padded_invalid [OF False]] show ?thesis
      unfolding d using False by simp
  qed
qed

lemma base64_bytes_append:
  "length pre mod 4 = 0 \<Longrightarrow> base64_bytes (pre @ rest) = base64_bytes pre @ base64_bytes rest"
proof (induction pre rule: base64_bytes.induct)
  case (1 c0 c1 c2 c3 r)
  then show ?case by simp
qed simp_all

lemma base64_bytes_group:
  "length g = 4 \<Longrightarrow> base64_bytes g = base64_group g (map base64_digit g)"
  by (cases g rule: base64_bytes.cases) simp_all

lemma padded_len8_eq: "padded_len8 n = n + (8 - n mod 8) mod 8"
proof (induction n rule: padded_len8.induct)
  case (1 n)
  show ?case
  proof (cases "n mod 8 = 0")
    case True
    then show ?thesis by (simp add: padded_len8.simps [of n])
  next
    case False
    have r: "n mod 8 < 8" by simp
    have "padded_len8 n = n + 1 + (8 - (n + 1) mod 8) mod 8"
      using False "1.IH" by (simp add: padded_len8.simps [of n])
    also have "\<dots> = n + (8 - n mod 8) mod 8"
      using False r by (simp add: mod_Suc) linarith
    finally show ?thesis .
  qed
qed

lemma base32_nul_invalid: "CHR 0x00 \<noteq> CHR ''=''" "CHR 0x00 \<notin> set base32_table"
  by (simp_all add: base32_table_def)

lemma base32_valid_no_nul: "base32_valid s \<Longrightarrow> CHR 0x00 \<notin> set s"
  unfolding base32_valid_def list_all_iff using base32_nul_invalid by blast

lemma base32_valid_append:
  "base32_valid (s @ t) \<longleftrightarrow> base32_valid s \<and> base32_valid t"
  by (simp add: base32_valid_def)

lemma base32_valid_pad: "base32_valid (replicate k (CHR ''=''))"
  by (induction k) (simp_all add: base32_valid_def)

lemma base32_padded_invalid:
  assumes "\<not> base32_valid s"
  shows "\<not> base32_valid (strncpy s (length s) @ replicate k (CHR ''=''))"
proof (cases "CHR 0x00 \<in> set s")
  case True
  then have "\<not> base32_valid (strncpy s (length s))"
    using base32_valid_no_nul strncpy_nul by blast
  then show ?thesis by (simp only: base32_valid_append) simp
next
  case False
  with assms show ?thesis by (simp add: strncpy_no_nul [OF False] base32_valid_append)
qed

lemma base32_padded_valid:
  assumes "base32_valid s"
  shows "strncpy s (length s) @ replicate k (CHR ''='') = s @ replicate k (CHR ''='')"
    and "base32_valid (s @ replicate k (CHR ''=''))"
  using assms
  by (simp_all add: strncpy_no_nul [OF base32_valid_no_nul [OF assms]] base32_valid_append
      base32_valid_pad)

lemma base32_indices_eq:
  "base32_indices g = (if base32_valid g then Some (map base32_digit g) else None)"
  by (induction g)
     (auto simp: base32_valid_def base32_digit_def Let_def find_index_eq_minus1)

lemma base32_decode_loop_invalid:
  "length s mod 8 = 0 \<Longrightarrow> \<not> base32_valid s \<Longrightarrow>
     base32_decode_loop s acc = Inl InvalidCharacterError"
proof (induction s acc rule: base32_decode_loop.induct)
  case (1 c0 c1 c2 c3 c4 c5 c6 c7 rest acc)
  show ?case
  proof (cases "base32_valid [c0, c1, c2, c3, c4, c5, c6, c7]")
    case False
    then show ?thesis by (simp add: base32_indices_eq del: base32_indices.simps)
  next
    case True
    with "1.prems" have "\<not> base32_valid rest" "length rest mod 8 = 0"
      by (auto simp: base32_valid_def)
    with True "1.IH" show ?thesis
      by (simp add: base32_indices_eq del: base32_indices.simps)
  qed
qed (simp_all add: base32_valid_def)

lemma base32_decode_loop_valid:
  "base32_valid s \<Longrightarrow> base32_decode_loop s acc = Inr (acc @ base32_bytes s)"
proof (induction s acc rule: base32_decode_loop.induct)
  case (1 c0 c1 c2 c3 c4 c5 c6 c7 rest acc)
  then have v: "base32_valid [c0, c1, c2, c3, c4, c5, c6, c7]" "base32_valid rest"
    by (simp_all add: base32_valid_def)
  with "1.IH" show ?case
    by (simp add: base32_indices_eq del: base32_indices.simps)
qed simp_all

lemma length_base32_group:
  "length (base32_group g idx) =
     1 + of_bool (g ! 2 \<noteq> CHR ''='') + of_bool (g ! 4 \<noteq> CHR ''='')
       + of_bool (g ! 5 \<noteq> CHR ''='') + of_bool (g ! 6 \<noteq> CHR ''='')"
  by (simp add: base32_group_def Let_def)


lemma pad8_mod: "(n + (8 - n mod 8) mod 8) mod 8 = (0 :: nat)"
proof -
  define r where "r = n mod 8"
  have "r < 8" by (simp add: r_def)
  then consider "r = 0" | "r = 1" | "r = 2" | "r = 3" | "r = 4" | "r = 5" | "r = 6" | "r = 7"
    by linarith
  then have "(r + (8 - r) mod 8) mod 8 = 0" by cases simp_all
  then show ?thesis unfolding r_def by (simp only: mod_add_left_eq)
qed

lemma base32_decode_eq:
  "base32_decode s =
     (if base32_valid s
      then Inr (base32_bytes (s @ replicate ((8 - length s mod 8) mod 8) (CHR ''='')))
      else Inl InvalidCharacterError)"
proof -
  define k where "k = (8 - length s mod 8) mod 8"
  have d: "base32_decode s =
      base32_decode_loop (strncpy s (length s) @ replicate k (CHR ''='')) []"
    by (simp add: base32_decode_def Let_def padded_len8_eq k_def)
  show ?thesis
  proof (cases "base32_valid s")
    case True
    from base32_padded_valid [OF True, of k] show ?thesis
      unfolding d using True by (simp add: base32_decode_loop_valid k_def)
  next
    case False
    have "length (strncpy s (length s) @ replicate k (CHR ''='')) mod 8 = 0"
      by (simp add: length_strncpy k_def pad8_mod)
    from base32_decode_loop_invalid [OF this base32_padded_invalid [OF False]] show ?thesis
      unfolding d using False by simp
  qed
qed

lemma base32_bytes_append:
  "length pre mod 8 = 0 \<Longrightarrow> base32_bytes (pre @ rest) = base32_bytes pre @ base32_bytes rest"
proof (induction pre rule: base32_bytes.induct)
  case (1 c0 c1 c2 c3 c4 c5 c6 c7 r)
  then show ?case by simp
qed simp_all

lemma base32_bytes_group:
  "length g = 8 \<Longrightarrow> base32_bytes g = base32_group g (map base32_digit g)"
  by (cases g rule: base32_bytes.cases) simp_all

lemma base64_eval_TW_u: "base64_bytes ''TW=u'' = [0x4D, 0x2E]"
  by (simp add: base64_group_def base64_digit_def find_index_def base64_table_def)

text \<open>
  C5, as stated (a Base64 group gives 3 bytes unless its symbol 4 is the pad symbol),
  fails on a group with the pad symbol at offset 2 and a table symbol at offset 3: the two
  offsets are tested one by one, and the group \<open>"TW=u"\<close> gives the first and the third
  byte, so 2 bytes and not 3.
\<close>

theorem padded_decode_counterexample:
  "''TW=u'' ! 3 \<noteq> CHR ''='' \<and>
   base64_decode ''TW=u'' = Inr [0x4D, 0x2E] \<and>
   length (base64_group ''TW=u'' (map base64_digit ''TW=u'')) = 2 \<and>
   length (base64_group ''TW=u'' (map base64_digit ''TW=u'')) \<noteq> 3"
proof -
  have v: "base64_valid ''TW=u''"
    by (simp add: base64_valid_def base64_table_def)
  have "base64_decode ''TW=u'' = Inr (base64_bytes ''TW=u'')"
    using v by (simp add: base64_decode_eq)
  then have "base64_decode ''TW=u'' = Inr [0x4D, 0x2E]"
    unfolding base64_eval_TW_u .
  then show ?thesis by (simp add: length_base64_group)
qed

text \<open>
  C5, amended: \<open>base64_decode\<close> and \<open>base32_decode\<close> fail with an invalid-character
  error exactly when some character is neither in the table nor the pad symbol. Otherwise
  the text is right-padded with \<open>'='\<close> to the next multiple of 4 (8) symbols and the
  result is the concatenation of the bytes of its groups. A Base64 group gives one byte
  plus one for each of the offsets 2 and 3 that does not hold the pad symbol: 3 bytes when
  neither does, 2 bytes when one of them does, 1 byte when both do. A Base32 group gives
  one byte plus one for each of the offsets 2, 4, 5 and 6 that does not hold the pad
  symbol, so between 5 and 1 bytes.
\<close>

theorem padded_decode_amended:
  "(base64_valid s \<longrightarrow>
      base64_decode s =
        Inr (base64_bytes (s @ replicate ((4 - length s mod 4) mod 4) (CHR ''='')))) \<and>
   (\<not> base64_valid s \<longrightarrow> base64_decode s = Inl InvalidCharacterError) \<and>
   (length g = 4 \<longrightarrow>
      base64_bytes (g @ rest) = base64_group g (map base64_digit g) @ base64_bytes rest) \<and>
   length (base64_group g idx) =
     1 + of_bool (g ! 2 \<noteq> CHR ''='') + of_bool (g ! 3 \<noteq> CHR ''='') \<and>
   (base32_valid t \<longrightarrow>
      base32_decode t =
        Inr (base32_bytes (t @ replicate ((8 - length t mod 8) mod 8) (CHR ''='')))) \<and>
   (\<not> base32_valid t \<longrightarrow> base32_decode t = Inl InvalidCharacterError) \<and>
   (length h = 8 \<longrightarrow>
      base32_bytes (h @ rest') = base32_group h (map base32_digit h) @ base32_bytes rest') \<and>
   length (base32_group h idx') =
     1 + of_bool (h ! 2 \<noteq> CHR ''='') + of_bool (h ! 4 \<noteq> CHR ''='')
       + of_bool (h ! 5 \<noteq> CHR ''='') + of_bool (h ! 6 \<noteq> CHR ''='')"
proof (intro conjI impI)
  assume "base64_valid s"
  then show "base64_decode s =
      Inr (base64_bytes (s @ replicate ((4 - length s mod 4) mod 4) (CHR ''='')))"
    by (simp add: base64_decode_eq)
next
  assume "\<not> base64_valid s"
  then show "base64_decode s = Inl InvalidCharacterError"
    by (simp add: base64_decode_eq)
next
  assume l: "length g = 4"
  then have "length g mod 4 = 0" by simp
  from base64_bytes_append [OF this, of rest] base64_bytes_group [OF l]
  show "base64_bytes (g @ rest) = base64_group g (map base64_digit g) @ base64_bytes rest"
    by simp
next
  show "length (base64_group g idx) =
     1 + of_bool (g ! 2 \<noteq> CHR ''='') + of_bool (g ! 3 \<noteq> CHR ''='')"
    by (rule length_base64_group)
next
  assume "base32_valid t"
  then show "base32_decode t =
      Inr (base32_bytes (t @ replicate ((8 - length t mod 8) mod 8) (CHR ''='')))"
    by (simp add: base32_decode_eq)
next
  assume "\<not> base32_valid t"
  then show "base32_decode t = Inl InvalidCharacterError"
    by (simp add: base32_decode_eq)
next
  assume l: "length h = 8"
  then have "length h mod 8 = 0" by simp
  from base32_bytes_append [OF this, of rest'] base32_bytes_group [OF l]
  show "base32_bytes (h @ rest') = base32_group h (map base32_digit h) @ base32_bytes rest'"
    by simp
next
  show "length (base32_group h idx') =
     1 + of_bool (h ! 2 \<noteq> CHR ''='') + of_bool (h ! 4 \<noteq> CHR ''='')
       + of_bool (h ! 5 \<noteq> CHR ''='') + of_bool (h ! 6 \<noteq> CHR ''='')"
    by (rule length_base32_group)
qed

lemma base64_eval_TQ: "base64_bytes ''TQ=='' = [0x4D]"
  by (simp add: base64_group_def base64_digit_def find_index_def base64_table_def)

lemma base64_eval_TWFu: "base64_bytes ''TWFu'' = [0x4D, 0x61, 0x6E]"
  by (simp add: base64_group_def base64_digit_def find_index_def base64_table_def)

lemma base32_eval_JA: "base32_bytes ''JA======'' = [0x48]"
  by (simp add: base32_group_def base32_digit_def find_index_def base32_table_def)

lemma base32_eval_Hello: "base32_bytes ''JBSWY3DP'' = [0x48, 0x65, 0x6C, 0x6C, 0x6F]"
  by (simp add: base32_group_def base32_digit_def find_index_def base32_table_def)

text \<open>
  C5, amended, at the texts \<open>"TQ"\<close>, \<open>"T!"\<close>, \<open>"JA"\<close> and \<open>"ja"\<close> and at the
  groups \<open>"TWFu"\<close>, \<open>"TWE="\<close>, \<open>"TW=u"\<close>, \<open>"TQ=="\<close> and \<open>"JBSWY3DP"\<close>.
\<close>

theorem padded_decode_amended_witness:
  "base64_valid ''TQ'' \<and> base64_decode ''TQ'' = Inr [0x4D] \<and>
   \<not> base64_valid ''T!'' \<and> base64_decode ''T!'' = Inl InvalidCharacterError \<and>
   length ''TWFu'' = 4 \<and> base64_bytes (''TWFu'' @ ''TQ=='') = [0x4D, 0x61, 0x6E, 0x4D] \<and>
   length (base64_group ''TWFu'' []) = 3 \<and>
   length (base64_group ''TWE='' []) = 2 \<and>
   length (base64_group ''TW=u'' []) = 2 \<and>
   length (base64_group ''TQ=='' []) = 1 \<and>
   base32_valid ''JA'' \<and> base32_decode ''JA'' = Inr [0x48] \<and>
   \<not> base32_valid ''ja'' \<and> base32_decode ''ja'' = Inl InvalidCharacterError \<and>
   length ''JBSWY3DP'' = 8 \<and>
   base32_bytes (''JBSWY3DP'' @ ''JA======'') = [0x48, 0x65, 0x6C, 0x6C, 0x6F, 0x48]"
proof -
  have v1: "base64_valid ''TQ''" and v2: "\<not> base64_valid ''T!''"
    by (simp_all add: base64_valid_def base64_table_def)
  have v3: "base32_valid ''JA''" and v4: "\<not> base32_valid ''ja''"
    by (simp_all add: base32_valid_def base32_table_def)
  have l4: "length ''TWFu'' = 4" and l8: "length ''JBSWY3DP'' = 8" by simp_all
  note t1 = padded_decode_amended [of "''TQ''" "''TWFu''" "''TQ==''" "[]" "''JA''"
      "''JBSWY3DP''" "''JA======''" "[]"]
  note t2 = padded_decode_amended [of "''T!''" "''TWE=''" "[]" "[]" "''ja''" "[]" "[]" "[]"]
  note t3 = padded_decode_amended [of "[]" "''TQ==''" "[]" "[]" "[]" "[]" "[]" "[]"]
  note t4 = padded_decode_amended [of "[]" "''TW=u''" "[]" "[]" "[]" "[]" "[]" "[]"]
  have "replicate 2 (CHR ''='') = ''==''" by (simp add: numeral_2_eq_2)
  then have p1: "''TQ'' @ replicate ((4 - length ''TQ'' mod 4) mod 4) (CHR ''='') = ''TQ==''"
    by simp
  have "replicate 6 (CHR ''='') = ''======''" by (simp add: numeral_eq_Suc)
  then have p2: "''JA'' @ replicate ((8 - length ''JA'' mod 8) mod 8) (CHR ''='') = ''JA======''"
    by simp
  have "base64_decode ''TQ'' =
      Inr (base64_bytes (''TQ'' @ replicate ((4 - length ''TQ'' mod 4) mod 4) (CHR ''='')))"
    using t1 v1 by blast
  then have r1: "base64_decode ''TQ'' = Inr [0x4D]"
    unfolding p1 base64_eval_TQ .
  have r2: "base64_decode ''T!'' = Inl InvalidCharacterError"
    using t2 v2 by blast
  have "base64_bytes (''TWFu'' @ ''TQ=='') =
      base64_group ''TWFu'' (map base64_digit ''TWFu'') @ base64_bytes ''TQ==''"
    using t1 l4 by blast
  then have r3: "base64_bytes (''TWFu'' @ ''TQ=='') = [0x4D, 0x61, 0x6E, 0x4D]"
    unfolding base64_bytes_group [OF l4, symmetric] base64_eval_TQ base64_eval_TWFu by simp
  have r4: "length (base64_group ''TWFu'' []) = 3"
    using t1 [THEN conjunct2, THEN conjunct2, THEN conjunct2, THEN conjunct1] by simp
  have r5: "length (base64_group ''TWE='' []) = 2"
    using t2 [THEN conjunct2, THEN conjunct2, THEN conjunct2, THEN conjunct1] by simp
  have r6: "length (base64_group ''TQ=='' []) = 1"
    using t3 [THEN conjunct2, THEN conjunct2, THEN conjunct2, THEN conjunct1] by simp
  have r10: "length (base64_group ''TW=u'' []) = 2"
    using t4 [THEN conjunct2, THEN conjunct2, THEN conjunct2, THEN conjunct1] by simp
  have "base32_decode ''JA'' =
      Inr (base32_bytes (''JA'' @ replicate ((8 - length ''JA'' mod 8) mod 8) (CHR ''='')))"
    using t1 v3 by blast
  then have r7: "base32_decode ''JA'' = Inr [0x48]"
    unfolding p2 base32_eval_JA .
  have r8: "base32_decode ''ja'' = Inl InvalidCharacterError"
    using t2 v4 by blast
  have "base32_bytes (''JBSWY3DP'' @ ''JA======'') =
      base32_group ''JBSWY3DP'' (map base32_digit ''JBSWY3DP'') @ base32_bytes ''JA======''"
    using t1 l8 by blast
  then have r9: "base32_bytes (''JBSWY3DP'' @ ''JA======'') = [0x48, 0x65, 0x6C, 0x6C, 0x6F, 0x48]"
    unfolding base32_bytes_group [OF l8, symmetric] base32_eval_JA base32_eval_Hello by simp
  from v1 v2 v3 v4 l4 l8 r1 r2 r3 r4 r5 r6 r7 r8 r9 r10 show ?thesis by blast
qed

lemma base64_decode_embedded:
  assumes "base64_valid pre" "length pre mod 4 = 0" "length g = 4" "base64_valid g"
    "base64_valid post"
  shows "base64_decode (pre @ g @ post) =
        Inr (base64_bytes pre @ base64_group g (map base64_digit g)
             @ base64_bytes (post @ replicate ((4 - length post mod 4) mod 4) (CHR ''='')))"
proof -
  have v: "base64_valid (pre @ g @ post)"
    using assms by (simp add: base64_valid_append)
  have "length (pre @ g @ post) mod 4 = (length pre + (4 + length post)) mod 4"
    using assms(3) by simp
  also have "\<dots> = length post mod 4"
    using assms(2) by (metis add_cancel_left_left mod_add_left_eq mod_add_self1)
  finally have k: "length (pre @ g @ post) mod 4 = length post mod 4" .
  have gl: "length g mod 4 = 0" using assms(3) by simp
  have "base64_decode (pre @ g @ post) =
      Inr (base64_bytes (pre @ g @ (post @ replicate ((4 - length post mod 4) mod 4) (CHR ''=''))))"
    unfolding base64_decode_eq k using v by (simp only: if_True append_assoc)
  then show ?thesis
    by (simp only: base64_bytes_append [OF assms(2)] base64_bytes_append [OF gl]
        base64_bytes_group [OF assms(3)])
qed

lemma base32_decode_embedded:
  assumes "base32_valid pre" "length pre mod 8 = 0" "length g = 8" "base32_valid g"
    "base32_valid post"
  shows "base32_decode (pre @ g @ post) =
        Inr (base32_bytes pre @ base32_group g (map base32_digit g)
             @ base32_bytes (post @ replicate ((8 - length post mod 8) mod 8) (CHR ''='')))"
proof -
  have v: "base32_valid (pre @ g @ post)"
    using assms by (simp add: base32_valid_append)
  have "length (pre @ g @ post) mod 8 = (length pre + (8 + length post)) mod 8"
    using assms(3) by simp
  also have "\<dots> = length post mod 8"
    using assms(2) by (metis add_cancel_left_left mod_add_left_eq mod_add_self1)
  finally have k: "length (pre @ g @ post) mod 8 = length post mod 8" .
  have gl: "length g mod 8 = 0" using assms(3) by simp
  have "base32_decode (pre @ g @ post) =
      Inr (base32_bytes (pre @ g @ (post @ replicate ((8 - length post mod 8) mod 8) (CHR ''=''))))"
    unfolding base32_decode_eq k using v by (simp only: if_True append_assoc)
  then show ?thesis
    by (simp only: base32_bytes_append [OF assms(2)] base32_bytes_append [OF gl]
        base32_bytes_group [OF assms(3)])
qed

lemma base64_decode_single:
  assumes "length g = 4" "base64_valid g"
  shows "base64_decode g = Inr (base64_group g (map base64_digit g))"
  using assms by (simp add: base64_decode_eq base64_bytes_group)

lemma base32_decode_single:
  assumes "length g = 8" "base32_valid g"
  shows "base32_decode g = Inr (base32_group g (map base32_digit g))"
  using assms by (simp add: base32_decode_eq base32_bytes_group)

text \<open>
  C10: the pad symbol is accepted in every group, not only in the last one. For a valid
  prefix of whole groups, a valid group \<open>g\<close> (with \<open>'='\<close> wherever it may be) and a valid
  rest, decoding succeeds, and \<open>g\<close> contributes the bytes it gives when decoded alone:
  the pad symbol counts as digit 0, and the pad symbol at the offsets 2 and 3 (Base64) or
  2, 4, 5 and 6 (Base32) suppresses one byte each.
\<close>

theorem pad_in_any_group:
  "(base64_valid pre \<and> length pre mod 4 = 0 \<and> length g = 4 \<and> base64_valid g \<and>
     base64_valid post \<longrightarrow>
      base64_decode (pre @ g @ post) =
        Inr (base64_bytes pre @ base64_group g (map base64_digit g)
             @ base64_bytes (post @ replicate ((4 - length post mod 4) mod 4) (CHR ''='')))
      \<and> base64_decode g = Inr (base64_group g (map base64_digit g))) \<and>
   base64_digit (CHR ''='') = 0 \<and>
   length (base64_group g idx) =
     1 + of_bool (g ! 2 \<noteq> CHR ''='') + of_bool (g ! 3 \<noteq> CHR ''='') \<and>
   (base32_valid pre' \<and> length pre' mod 8 = 0 \<and> length h = 8 \<and> base32_valid h \<and>
     base32_valid post' \<longrightarrow>
      base32_decode (pre' @ h @ post') =
        Inr (base32_bytes pre' @ base32_group h (map base32_digit h)
             @ base32_bytes (post' @ replicate ((8 - length post' mod 8) mod 8) (CHR ''='')))
      \<and> base32_decode h = Inr (base32_group h (map base32_digit h))) \<and>
   base32_digit (CHR ''='') = 0 \<and>
   length (base32_group h idx') =
     1 + of_bool (h ! 2 \<noteq> CHR ''='') + of_bool (h ! 4 \<noteq> CHR ''='')
       + of_bool (h ! 5 \<noteq> CHR ''='') + of_bool (h ! 6 \<noteq> CHR ''='')"
  using base64_decode_embedded [of pre g post] base64_decode_single [of g]
    base32_decode_embedded [of pre' h post'] base32_decode_single [of h]
    length_base64_group [of g idx] length_base32_group [of h idx']
  by (simp add: base64_digit_def base32_digit_def)

theorem pad_in_any_group_witness:
  "base64_valid ''TWFu'' \<and> length ''TWFu'' mod 4 = 0 \<and> length ''TQ=='' = 4 \<and>
   base64_valid ''TQ=='' \<and>
   base64_decode (''TWFu'' @ ''TQ=='' @ ''TWFu'') = Inr [0x4D, 0x61, 0x6E, 0x4D, 0x4D, 0x61, 0x6E] \<and>
   base64_decode ''TQ=='' = Inr [0x4D] \<and>
   base32_valid ''JBSWY3DP'' \<and> length ''JBSWY3DP'' mod 8 = 0 \<and> length ''JA======'' = 8 \<and>
   base32_valid ''JA======'' \<and>
   base32_decode (''JBSWY3DP'' @ ''JA======'' @ ''JBSWY3DP'') =
     Inr [0x48, 0x65, 0x6C, 0x6C, 0x6F, 0x48, 0x48, 0x65, 0x6C, 0x6C, 0x6F] \<and>
   base32_decode ''JA======'' = Inr [0x48]"
proof -
  have v: "base64_valid ''TWFu''" "base64_valid ''TQ==''"
    by (simp_all add: base64_valid_def base64_table_def)
  have w: "base32_valid ''JBSWY3DP''" "base32_valid ''JA======''"
    by (simp_all add: base32_valid_def base32_table_def)
  have l: "length ''TWFu'' mod 4 = 0" "length ''TQ=='' = 4"
    "length ''JBSWY3DP'' mod 8 = 0" "length ''JA======'' = 8" by simp_all
  have l': "length ''TWFu'' = 4" "length ''JBSWY3DP'' = 8" by simp_all
  note t = pad_in_any_group [of "''TWFu''" "''TQ==''" "''TWFu''" "[]" "''JBSWY3DP''"
      "''JA======''" "''JBSWY3DP''" "[]"]
  have q1: "''TWFu'' @ replicate ((4 - length ''TWFu'' mod 4) mod 4) (CHR ''='') = ''TWFu''"
    by simp
  have q2: "''JBSWY3DP'' @ replicate ((8 - length ''JBSWY3DP'' mod 8) mod 8) (CHR ''='')
      = ''JBSWY3DP''"
    by simp
  have "base64_decode (''TWFu'' @ ''TQ=='' @ ''TWFu'') =
      Inr (base64_bytes ''TWFu'' @ base64_group ''TQ=='' (map base64_digit ''TQ=='')
        @ base64_bytes (''TWFu'' @ replicate ((4 - length ''TWFu'' mod 4) mod 4) (CHR ''='')))"
    using t v l by blast
  then have r1: "base64_decode (''TWFu'' @ ''TQ=='' @ ''TWFu'') =
      Inr [0x4D, 0x61, 0x6E, 0x4D, 0x4D, 0x61, 0x6E]"
    unfolding q1 base64_bytes_group [OF l(2), symmetric] base64_eval_TQ base64_eval_TWFu
    by simp
  have "base64_decode ''TQ=='' = Inr (base64_group ''TQ=='' (map base64_digit ''TQ==''))"
    using t v l by blast
  then have r2: "base64_decode ''TQ=='' = Inr [0x4D]"
    unfolding base64_bytes_group [OF l(2), symmetric] base64_eval_TQ .
  have "base32_decode (''JBSWY3DP'' @ ''JA======'' @ ''JBSWY3DP'') =
      Inr (base32_bytes ''JBSWY3DP'' @ base32_group ''JA======'' (map base32_digit ''JA======'')
        @ base32_bytes (''JBSWY3DP''
            @ replicate ((8 - length ''JBSWY3DP'' mod 8) mod 8) (CHR ''='')))"
    using t w l by blast
  then have r3: "base32_decode (''JBSWY3DP'' @ ''JA======'' @ ''JBSWY3DP'') =
     Inr [0x48, 0x65, 0x6C, 0x6C, 0x6F, 0x48, 0x48, 0x65, 0x6C, 0x6C, 0x6F]"
    unfolding q2 base32_bytes_group [OF l(4), symmetric] base32_eval_JA base32_eval_Hello
    by simp
  have "base32_decode ''JA======'' = Inr (base32_group ''JA======'' (map base32_digit ''JA======''))"
    using t w l by blast
  then have r4: "base32_decode ''JA======'' = Inr [0x48]"
    unfolding base32_bytes_group [OF l(4), symmetric] base32_eval_JA .
  from v w l r1 r2 r3 r4 show ?thesis by blast
qed

subsection \<open>Base85 decoding\<close>

text \<open>
  The bytes unpacked from \<open>value\<close> are the same whether \<open>unsigned long\<close> has 32 or
  64 bits: reducing the value modulo a power of two of at least 32 bits changes none of
  the four bytes read.
\<close>

lemma base85_unpack_width:
  "e + 8 \<le> w \<Longrightarrow> (X mod 2 ^ w) div 2 ^ e mod 256 = (X :: nat) div 2 ^ e mod 256"
proof -
  assume e: "e + 8 \<le> w"
  have "take_bit 8 (drop_bit e (take_bit w X)) = take_bit 8 (drop_bit e X)"
    using e by (intro bit_eqI) (auto simp: bit_simps)
  then show ?thesis by (simp add: take_bit_eq_mod drop_bit_eq_div)
qed

lemma base85_value_valid:
  "set cs \<subseteq> set base85_table \<Longrightarrow>
     base85_value cs v = Some (foldl (\<lambda>v c. v * 85 + base85_digit c) v cs)"
  by (induction cs arbitrary: v) (simp_all add: strchr_def base85_digit_def)

lemma base85_decode_loop_valid:
  "set s \<subseteq> set base85_table \<Longrightarrow> base85_decode_loop s acc = Inr (acc @ base85_bytes s)"
proof (induction s acc rule: base85_decode_loop.induct)
  case (1 c0 c1 c2 c3 c4 rest acc)
  then have b: "set [c0, c1, c2, c3, c4] \<subseteq> set base85_table" and r: "set rest \<subseteq> set base85_table"
    by simp_all
  have e: "base85_value [c0, c1, c2, c3, c4] 0 =
      Some ((((base85_digit c0 * 85 + base85_digit c1) * 85 + base85_digit c2) * 85
                 + base85_digit c3) * 85 + base85_digit c4)"
    unfolding base85_value_valid [OF b] by simp
  show ?case
    using "1.IH" [OF e r] by (simp add: e Let_def del: base85_value.simps)
qed simp_all

lemma base85_value_some:
  "set cs \<subseteq> insert (CHR 0x00) (set base85_table) \<Longrightarrow> \<exists>w. base85_value cs v = Some w"
  by (induction cs arbitrary: v) (auto simp: strchr_def)

lemma base85_value_none:
  "\<not> set cs \<subseteq> insert (CHR 0x00) (set base85_table) \<Longrightarrow> base85_value cs v = None"
  by (induction cs arbitrary: v) (auto simp: strchr_def)

lemma base85_decode_loop_none:
  "length s mod 5 = 0 \<Longrightarrow> \<not> set s \<subseteq> insert (CHR 0x00) (set base85_table) \<Longrightarrow>
     base85_decode_loop s acc = Inl InvalidCharacterError"
proof (induction s acc rule: base85_decode_loop.induct)
  case (1 c0 c1 c2 c3 c4 rest acc)
  show ?case
  proof (cases "set [c0, c1, c2, c3, c4] \<subseteq> insert (CHR 0x00) (set base85_table)")
    case False
    from base85_value_none [OF False] show ?thesis
      by (simp del: base85_value.simps)
  next
    case True
    with "1.prems" have r: "length rest mod 5 = 0"
      "\<not> set rest \<subseteq> insert (CHR 0x00) (set base85_table)" by auto
    from base85_value_some [OF True] obtain w where
      e: "base85_value [c0, c1, c2, c3, c4] 0 = Some w" by (erule exE)
    from "1.IH" [OF e r] show ?thesis
      by (simp add: e del: base85_value.simps)
  qed
qed simp_all

lemma length_base85_bytes: "length s mod 5 = 0 \<Longrightarrow> length (base85_bytes s) = length s div 5 * 4"
proof (induction s rule: base85_bytes.induct)
  case (1 c0 c1 c2 c3 c4 rest)
  have l: "length (c0 # c1 # c2 # c3 # c4 # rest) = length rest + 5" by simp
  from "1.prems" have "length rest mod 5 = 0" unfolding l by simp
  moreover have "(length rest + 5) div 5 = length rest div 5 + 1"
    by (rule div_add_self2) simp
  ultimately show ?case using "1.IH" unfolding l by (simp add: Let_def)
qed simp_all

text \<open>
  C8, amended: on a non-empty input \<open>base85_decode\<close> discards space, TAB, CR and LF;
  it fails with a length error when the cleaned length is not a multiple of 5; when the
  cleaned length is a multiple of 5 it fails with an invalid-character error if a
  remaining symbol is neither in the table nor the NUL byte; and when all remaining
  symbols are in the table it returns, for each block of five symbols, the four
  big-endian bytes of \<open>value = value * 85 + digit\<close>, so exactly
  \<open>(cleaned_length / 5) * 4\<close> bytes, a multiple of 4. The empty input is refused by the
  length-0 guard.
\<close>

theorem base85_decode_amended:
  "(s \<noteq> [] \<and> length (base85_clean s) mod 5 \<noteq> 0 \<longrightarrow> base85_decode s = Inl LengthError) \<and>
   (s \<noteq> [] \<and> length (base85_clean s) mod 5 = 0 \<and>
      \<not> set (base85_clean s) \<subseteq> insert (CHR 0x00) (set base85_table) \<longrightarrow>
      base85_decode s = Inl InvalidCharacterError) \<and>
   (s \<noteq> [] \<and> length (base85_clean s) mod 5 = 0 \<and>
      set (base85_clean s) \<subseteq> set base85_table \<longrightarrow>
      base85_decode s = Inr (base85_bytes (base85_clean s)) \<and>
      length (base85_bytes (base85_clean s)) = length (base85_clean s) div 5 * 4 \<and>
      length (base85_bytes (base85_clean s)) mod 4 = 0) \<and>
   base85_decode [] = Inl EmptyInputError"
proof (intro conjI impI)
  assume "s \<noteq> [] \<and> length (base85_clean s) mod 5 \<noteq> 0"
  then show "base85_decode s = Inl LengthError"
    by (simp add: base85_decode_def base85_clean_def)
next
  assume a: "s \<noteq> [] \<and> length (base85_clean s) mod 5 = 0 \<and>
      \<not> set (base85_clean s) \<subseteq> insert (CHR 0x00) (set base85_table)"
  then have "base85_decode_loop (base85_clean s) [] = Inl InvalidCharacterError"
    by (intro base85_decode_loop_none) simp_all
  with a show "base85_decode s = Inl InvalidCharacterError"
    by (simp add: base85_decode_def base85_clean_def)
next
  assume a: "s \<noteq> [] \<and> length (base85_clean s) mod 5 = 0 \<and>
      set (base85_clean s) \<subseteq> set base85_table"
  then have "base85_decode_loop (base85_clean s) [] = Inr ([] @ base85_bytes (base85_clean s))"
    by (intro base85_decode_loop_valid) simp
  with a show "base85_decode s = Inr (base85_bytes (base85_clean s))"
    by (simp add: base85_decode_def base85_clean_def)
  from a have l: "length (base85_bytes (base85_clean s)) = length (base85_clean s) div 5 * 4"
    by (simp add: length_base85_bytes)
  then show "length (base85_bytes (base85_clean s)) = length (base85_clean s) div 5 * 4" .
  show "length (base85_bytes (base85_clean s)) mod 4 = 0"
    unfolding l by simp
next
  show "base85_decode [] = Inl EmptyInputError"
    by (simp add: base85_decode_def)
qed

text \<open>
  C8, as stated, fails on the empty input: its cleaned length 0 is a multiple of 5 and no
  symbol is outside the table, yet the decoder does not return the empty payload but
  fails.
\<close>

theorem base85_decode_empty_counterexample:
  "length (base85_clean []) mod 5 = 0 \<and> set (base85_clean []) \<subseteq> set base85_table \<and>
   base85_decode [] = Inl EmptyInputError \<and> base85_decode [] \<noteq> Inr []"
  by (simp add: base85_decode_def base85_clean_def)

lemma base85_eval_zero: "base85_bytes ''!!!!!'' = [0, 0, 0, 0]"
  by (simp add: base85_digit_def find_index_def base85_table_def)

text \<open>
  A NUL byte is not refused: \<open>strchr\<close> finds the terminator of the table, 90 symbols
  in, and the byte counts as digit 90.
\<close>

lemma base85_decode_nul_eval:
  "base85_decode [CHR ''!'', CHR ''!'', CHR ''!'', CHR ''!'', CHR 0x00] = Inr [0, 0, 0, 90]"
  by (simp add: base85_decode_def strchr_def find_index_def base85_table_def)

text \<open>
  An input with a NUL byte is still refused when another of its symbols is not in the
  table.
\<close>

lemma base85_decode_nul_invalid_eval:
  "base85_decode [CHR ''!'', CHR ''!'', CHR ''!'', CHR ''~'', CHR 0x00] = Inl InvalidCharacterError"
  by (simp add: base85_decode_def strchr_def find_index_def base85_table_def)

text \<open>
  C8, amended, at the inputs \<open>"!!!!"\<close>, \<open>"!!!!~"\<close>, \<open>"!!!~"\<close> followed by a NUL byte,
  and \<open>"!!! !!"\<close>.
\<close>

theorem base85_decode_amended_witness:
  "''!!!!'' \<noteq> [] \<and> length (base85_clean ''!!!!'') mod 5 \<noteq> 0 \<and>
   base85_decode ''!!!!'' = Inl LengthError \<and>
   ''!!!!~'' \<noteq> [] \<and> length (base85_clean ''!!!!~'') mod 5 = 0 \<and>
   \<not> set (base85_clean ''!!!!~'') \<subseteq> insert (CHR 0x00) (set base85_table) \<and>
   base85_decode ''!!!!~'' = Inl InvalidCharacterError \<and>
   [CHR ''!'', CHR ''!'', CHR ''!'', CHR ''~'', CHR 0x00] \<noteq> [] \<and>
   length (base85_clean [CHR ''!'', CHR ''!'', CHR ''!'', CHR ''~'', CHR 0x00]) mod 5 = 0 \<and>
   \<not> set (base85_clean [CHR ''!'', CHR ''!'', CHR ''!'', CHR ''~'', CHR 0x00])
       \<subseteq> insert (CHR 0x00) (set base85_table) \<and>
   base85_decode [CHR ''!'', CHR ''!'', CHR ''!'', CHR ''~'', CHR 0x00] = Inl InvalidCharacterError \<and>
   ''!!! !!'' \<noteq> [] \<and> length (base85_clean ''!!! !!'') mod 5 = 0 \<and>
   set (base85_clean ''!!! !!'') \<subseteq> set base85_table \<and>
   base85_decode ''!!! !!'' = Inr [0, 0, 0, 0]"
proof -
  let ?n = "[CHR ''!'', CHR ''!'', CHR ''!'', CHR ''~'', CHR 0x00]"
  have c1: "base85_clean ''!!!!'' = ''!!!!''" and c2: "base85_clean ''!!!!~'' = ''!!!!~''"
    and c3: "base85_clean ''!!! !!'' = ''!!!!!''"
    and c4: "base85_clean ?n = ?n"
    by (simp_all add: base85_clean_def)
  have h1: "''!!!!'' \<noteq> [] \<and> length (base85_clean ''!!!!'') mod 5 \<noteq> 0"
    unfolding c1 by simp
  have h2: "''!!!!~'' \<noteq> [] \<and> length (base85_clean ''!!!!~'') mod 5 = 0 \<and>
      \<not> set (base85_clean ''!!!!~'') \<subseteq> insert (CHR 0x00) (set base85_table)"
    unfolding c2 by (simp add: base85_table_def)
  have h4: "?n \<noteq> [] \<and> length (base85_clean ?n) mod 5 = 0 \<and>
      \<not> set (base85_clean ?n) \<subseteq> insert (CHR 0x00) (set base85_table)"
    unfolding c4 by (simp add: base85_table_def)
  have h3: "''!!! !!'' \<noteq> [] \<and> length (base85_clean ''!!! !!'') mod 5 = 0 \<and>
      set (base85_clean ''!!! !!'') \<subseteq> set base85_table"
    unfolding c3 by (simp add: base85_table_def)
  have r1: "base85_decode ''!!!!'' = Inl LengthError"
    using base85_decode_amended [of "''!!!!''"] h1 by blast
  have r2: "base85_decode ''!!!!~'' = Inl InvalidCharacterError"
    using base85_decode_amended [of "''!!!!~''"] h2 by blast
  have r4: "base85_decode ?n = Inl InvalidCharacterError"
    using base85_decode_amended [of ?n] h4 by blast
  have "base85_decode ''!!! !!'' = Inr (base85_bytes (base85_clean ''!!! !!''))"
    using base85_decode_amended [of "''!!! !!''"] h3 by blast
  then have r3: "base85_decode ''!!! !!'' = Inr [0, 0, 0, 0]"
    unfolding c3 base85_eval_zero .
  from h1 h2 h3 h4 r1 r2 r3 r4 show ?thesis by blast
qed

subsection \<open>Round trips of Base16 and Base64\<close>

lemma byte_of_nibbles:
  "word_of_int (push_bit 4 (int (unat (drop_bit 4 b AND 0x0F))) OR int (unat (b AND 0x0F))) = (b :: byte)"
proof -
  have "(word_of_int (push_bit 4 (int (unat (drop_bit 4 b AND 0x0F))) OR int (unat (b AND 0x0F))) :: byte)
      = push_bit 4 (drop_bit 4 b AND mask 4) OR (b AND mask 4)"
    unfolding mask_numerals8
    by (rule bit_word_eqI) (auto simp: bit_simps)
  also have "\<dots> = b"
    by (rule bit_word_eqI) (auto simp: bit_simps dest: bit_byte_less)
  finally show ?thesis .
qed


lemma base16_table_distinct: "distinct base16_table"
  by (simp add: base16_table_def)

lemma base16_table_length: "length base16_table = 16"
  by (simp add: base16_table_def)

lemma unat_and_0F: "unat ((w :: byte) AND 0x0F) < 16"
  using unat_and_mask_less [of w 4] by (simp add: mask_numerals8)

lemma base16_pairs_encode: "base16_pairs (base16_encode p) = p"
proof (induction p)
  case Nil
  show ?case by simp
next
  case (Cons b bs)
  have h: "find_index (base16_table ! unat (drop_bit 4 b AND 0x0F)) base16_table
      = int (unat (drop_bit 4 b AND 0x0F))"
    by (rule find_index_nth [OF base16_table_distinct])
       (simp add: base16_table_length unat_and_0F)
  have l: "find_index (base16_table ! unat (b AND 0x0F)) base16_table = int (unat (b AND 0x0F))"
    by (rule find_index_nth [OF base16_table_distinct])
       (simp add: base16_table_length unat_and_0F)
  have c: "base16_chars = base16_table" by (simp add: base16_chars_def base16_table_def)
  show ?case
    by (simp only: base16_encode.simps base16_pairs.simps c h l byte_of_nibbles Cons.IH)
qed

lemma base16_encode_in_table: "set (base16_encode p) \<subseteq> set base16_table"
proof (induction p)
  case Nil
  show ?case by simp
next
  case (Cons b bs)
  have c: "base16_chars = base16_table" by (simp add: base16_chars_def base16_table_def)
  have "base16_table ! unat (w AND 0x0F) \<in> set base16_table" for w :: byte
    by (rule nth_mem) (simp add: base16_table_length unat_and_0F)
  with Cons show ?case by (simp add: c)
qed

lemma base16_roundtrip: "base16_decode (base16_encode p) = Inr p"
proof -
  have "length (base16_encode p) = 2 * length p" by (induction p) simp_all
  then have "length (base16_encode p) mod 2 = 0" by simp
  then show ?thesis
    by (simp add: base16_decode_def base16_decode_loop_ok [OF base16_encode_in_table]
        base16_pairs_encode)
qed

lemma base64_table_distinct: "distinct base64_table"
  by (simp add: base64_table_def)

lemma base64_digit_symbol:
  "base64_digit (base64_table ! unat ((w :: 32 word) AND 0x3F)) = int (unat (w AND 0x3F))"
  using find_index_nth [OF base64_table_distinct, of "unat (w AND 0x3F)"] unat_and_3F [of w]
    base64_symbol_no_pad [of w]
  by (simp add: base64_digit_def base64_table_length)

lemma base64_value4:
  "base64_value [i0, i1, i2, i3] 0 0 =
     push_bit 18 (word_of_int i0) OR push_bit 12 (word_of_int i1)
       OR push_bit 6 (word_of_int i2) OR word_of_int i3"
  by (simp add: or.assoc)

lemma word_of_int_unat: "word_of_int (int (unat w)) = (w :: 'a::len word)"
  by simp

lemma Suc_Suc_diff2: "2 \<le> n \<Longrightarrow> Suc (Suc (n - 2)) = n" "\<not> n < 2 \<Longrightarrow> Suc (Suc (n - 2)) = n"
  by simp_all

lemma base64_bytes_of_3:
  fixes a b c :: byte
  defines "v \<equiv> push_bit 16 (ucast a) OR push_bit 8 (ucast b) OR ucast c :: 32 word"
  defines "V \<equiv> push_bit 18 (drop_bit 18 v AND 0x3F) OR push_bit 12 (drop_bit 12 v AND 0x3F)
      OR push_bit 6 (drop_bit 6 v AND 0x3F) OR (v AND 0x3F)"
  shows "ucast (drop_bit 16 V AND 0xFF) = a" "ucast (drop_bit 8 V AND 0xFF) = b"
    "ucast (V AND 0xFF) = c"
proof -
  show "ucast (drop_bit 16 V AND 0xFF) = a"
    unfolding V_def v_def mask_numerals32
    by (rule bit_word_eqI) (auto simp: bit_simps Suc_Suc_diff2 dest: bit_byte_less)
  show "ucast (drop_bit 8 V AND 0xFF) = b"
    unfolding V_def v_def mask_numerals32
    by (rule bit_word_eqI) (auto simp: bit_simps Suc_Suc_diff2 dest: bit_byte_less)
  show "ucast (V AND 0xFF) = c"
    unfolding V_def v_def mask_numerals32
    by (rule bit_word_eqI) (auto simp: bit_simps Suc_Suc_diff2 dest: bit_byte_less)
qed

lemma base64_bytes_of_2:
  fixes a b :: byte
  defines "v \<equiv> push_bit 16 (ucast a) OR push_bit 8 (ucast b) :: 32 word"
  defines "V \<equiv> push_bit 18 (drop_bit 18 v AND 0x3F) OR push_bit 12 (drop_bit 12 v AND 0x3F)
      OR push_bit 6 (drop_bit 6 v AND 0x3F)"
  shows "ucast (drop_bit 16 V AND 0xFF) = a" "ucast (drop_bit 8 V AND 0xFF) = b"
proof -
  show "ucast (drop_bit 16 V AND 0xFF) = a"
    unfolding V_def v_def mask_numerals32
    by (rule bit_word_eqI) (auto simp: bit_simps Suc_Suc_diff2 dest: bit_byte_less)
  show "ucast (drop_bit 8 V AND 0xFF) = b"
    unfolding V_def v_def mask_numerals32
    by (rule bit_word_eqI) (auto simp: bit_simps Suc_Suc_diff2 dest: bit_byte_less)
qed

lemma base64_bytes_of_1:
  fixes a :: byte
  defines "v \<equiv> push_bit 16 (ucast a) :: 32 word"
  defines "V \<equiv> push_bit 18 (drop_bit 18 v AND 0x3F) OR push_bit 12 (drop_bit 12 v AND 0x3F)"
  shows "ucast (drop_bit 16 V AND 0xFF) = a"
  unfolding V_def v_def mask_numerals32
  by (rule bit_word_eqI) (auto simp: bit_simps Suc_Suc_diff2 dest: bit_byte_less)


lemma base64_bytes_encode_group3:
  "base64_bytes (base64_encode_group a (b # c # r0) @ rest) = a # b # c # base64_bytes rest"
proof -
  define v :: "32 word" where "v = push_bit 16 (ucast a) OR push_bit 8 (ucast b) OR ucast c"
  define s0 where "s0 = base64_table ! unat (drop_bit 18 v AND 0x3F)"
  define s1 where "s1 = base64_table ! unat (drop_bit 12 v AND 0x3F)"
  define s2 where "s2 = base64_table ! unat (drop_bit 6 v AND 0x3F)"
  define s3 where "s3 = base64_table ! unat (v AND 0x3F)"
  have g: "base64_encode_group a (b # c # r0) = [s0, s1, s2, s3]"
    unfolding base64_encode_group_def Let_def v_def s0_def s1_def s2_def s3_def
    by (simp only: list.size nth_Cons_0 nth_Cons_Suc One_nat_def) simp
  have d: "map base64_digit [s0, s1, s2, s3] =
      [int (unat (drop_bit 18 v AND 0x3F)), int (unat (drop_bit 12 v AND 0x3F)),
       int (unat (drop_bit 6 v AND 0x3F)), int (unat (v AND 0x3F))]"
    unfolding s0_def s1_def s2_def s3_def by (simp only: list.map base64_digit_symbol)
  have np: "[s0, s1, s2, s3] ! 2 \<noteq> CHR ''=''" "[s0, s1, s2, s3] ! 3 \<noteq> CHR ''=''"
    unfolding s2_def s3_def using base64_symbol_no_pad by simp_all
  have "base64_group [s0, s1, s2, s3] (map base64_digit [s0, s1, s2, s3]) = [a, b, c]"
    unfolding base64_group_def Let_def d base64_value4 word_of_int_unat
    using np
    by (simp only: if_True append_Cons append_Nil base64_bytes_of_3 [of a b c, folded v_def]
        simp_thms)
  then show ?thesis unfolding g by simp
qed

lemma base64_bytes_encode_group2:
  "base64_bytes (base64_encode_group a [b] @ rest) = a # b # base64_bytes rest"
proof -
  define v :: "32 word" where "v = push_bit 16 (ucast a) OR push_bit 8 (ucast b)"
  define s0 where "s0 = base64_table ! unat (drop_bit 18 v AND 0x3F)"
  define s1 where "s1 = base64_table ! unat (drop_bit 12 v AND 0x3F)"
  define s2 where "s2 = base64_table ! unat (drop_bit 6 v AND 0x3F)"
  have g: "base64_encode_group a [b] = [s0, s1, s2, CHR ''='']"
    unfolding base64_encode_group_def Let_def v_def s0_def s1_def s2_def
    by (simp only: list.size nth_Cons_0 nth_Cons_Suc One_nat_def) simp
  have d: "map base64_digit [s0, s1, s2, CHR ''=''] =
      [int (unat (drop_bit 18 v AND 0x3F)), int (unat (drop_bit 12 v AND 0x3F)),
       int (unat (drop_bit 6 v AND 0x3F)), 0]"
    unfolding s0_def s1_def s2_def
    by (simp only: list.map base64_digit_symbol) (simp add: base64_digit_def)
  have np: "[s0, s1, s2, CHR ''=''] ! 2 \<noteq> CHR ''=''" "[s0, s1, s2, CHR ''=''] ! 3 = CHR ''=''"
    unfolding s2_def using base64_symbol_no_pad by simp_all
  have z: "x OR word_of_int 0 = x" for x :: "32 word" by simp
  have "base64_group [s0, s1, s2, CHR ''=''] (map base64_digit [s0, s1, s2, CHR ''='']) = [a, b]"
    unfolding base64_group_def Let_def d base64_value4 word_of_int_unat z
    using np
    by (simp only: if_True if_False append_Cons append_Nil
        base64_bytes_of_2 [of a b, folded v_def] simp_thms)
  then show ?thesis unfolding g by simp
qed

lemma base64_bytes_encode_group1:
  "base64_bytes (base64_encode_group a [] @ rest) = a # base64_bytes rest"
proof -
  define v :: "32 word" where "v = push_bit 16 (ucast a)"
  define s0 where "s0 = base64_table ! unat (drop_bit 18 v AND 0x3F)"
  define s1 where "s1 = base64_table ! unat (drop_bit 12 v AND 0x3F)"
  have g: "base64_encode_group a [] = [s0, s1, CHR ''='', CHR ''='']"
    unfolding base64_encode_group_def Let_def v_def s0_def s1_def
    by (simp only: list.size nth_Cons_0 nth_Cons_Suc One_nat_def) simp
  have d: "map base64_digit [s0, s1, CHR ''='', CHR ''=''] =
      [int (unat (drop_bit 18 v AND 0x3F)), int (unat (drop_bit 12 v AND 0x3F)), 0, 0]"
    unfolding s0_def s1_def
    by (simp only: list.map base64_digit_symbol) (simp add: base64_digit_def)
  have np: "[s0, s1, CHR ''='', CHR ''=''] ! 2 = CHR ''=''"
    "[s0, s1, CHR ''='', CHR ''=''] ! 3 = CHR ''=''"
    by simp_all
  have z: "x OR push_bit 6 (word_of_int 0) OR word_of_int 0 = x" for x :: "32 word" by simp
  have "base64_group [s0, s1, CHR ''='', CHR ''='']
      (map base64_digit [s0, s1, CHR ''='', CHR ''='']) = [a]"
    unfolding base64_group_def Let_def d base64_value4 word_of_int_unat or.assoc z
    using np
    by (simp only: if_True if_False append_Cons append_Nil
        base64_bytes_of_1 [of a, folded v_def] simp_thms)
  then show ?thesis unfolding g by simp
qed

lemma base64_bytes_encode: "base64_bytes (base64_encode p) = p"
proof (induction "length p" arbitrary: p rule: less_induct)
  case less
  show ?case
  proof (cases p)
    case Nil
    then show ?thesis by (simp add: base64_encode_def)
  next
    case (Cons a bs)
    note p = Cons
    show ?thesis
    proof (cases bs)
      case Nil
      with p show ?thesis
        using base64_bytes_encode_group1 [of a "[]"]
        by (simp add: base64_encode_Cons base64_encode_def)
    next
      case (Cons b cs)
      note bs = Cons
      show ?thesis
      proof (cases cs)
        case Nil
        with p bs show ?thesis
          using base64_bytes_encode_group2 [of a b "[]"]
          by (simp add: base64_encode_Cons base64_encode_def)
      next
        case (Cons c rest)
        then have "length rest < length p" using p bs by simp
        from less [OF this] p bs Cons show ?thesis
          by (simp add: base64_encode_Cons base64_bytes_encode_group3)
      qed
    qed
  qed
qed

lemma base64_encode_valid: "base64_valid (base64_encode p)"
proof -
  obtain body where b: "base64_encode p = body @ replicate ((3 - length p mod 3) mod 3) (CHR ''='')"
    using base64_encode_pad by blast
  have "set (base64_encode_group b0 bs) \<subseteq> insert (CHR ''='') (set base64_table)" for b0 bs
    using unat_and_3F by (auto simp: base64_encode_group_def Let_def base64_table_length)
  then have "set (base64_encode q) \<subseteq> insert (CHR ''='') (set base64_table)" for q
  proof (induction "length q" arbitrary: q rule: less_induct)
    case less
    show ?case
    proof (cases q)
      case Nil
      then show ?thesis by (simp add: base64_encode_def)
    next
      case (Cons b0 bs)
      then have "length (drop 2 bs) < length q" by simp
      from less(1) [OF this less(2)] less(2) [of b0 bs] Cons show ?thesis
        by (simp add: base64_encode_Cons)
    qed
  qed
  then show ?thesis by (auto simp: base64_valid_def list_all_iff)
qed

lemma base64_roundtrip: "base64_decode (base64_encode p) = Inr p"
proof -
  have "length (base64_encode p) mod 4 = 0"
    by (simp add: length_base64_encode_aux)
  then show ?thesis
    by (simp add: base64_decode_eq base64_encode_valid base64_bytes_encode)
qed

subsection \<open>Round trip of Base85\<close>

lemma base85_table_distinct: "distinct base85_table"
  by (simp add: base85_table_def)

lemma base85_table_length: "length base85_table = 90"
  by (simp add: base85_table_def)

lemma base85_table_no_space:
  "CHR '' '' \<notin> set base85_table" "CHR 0x0A \<notin> set base85_table"
  "CHR 0x0D \<notin> set base85_table" "CHR 0x09 \<notin> set base85_table"
  by (simp_all add: base85_table_def)

lemma base85_digit_symbol: "d < 90 \<Longrightarrow> base85_digit (base85_table ! d) = d"
  using find_index_nth [OF base85_table_distinct, of d]
  by (simp add: base85_digit_def base85_table_length)

lemma base85_recompose:
  fixes V :: nat
  assumes "V < 2 ^ 32"
  shows "((((V div 85 div 85 div 85 div 85 mod 85) * 85 + V div 85 div 85 div 85 mod 85) * 85
            + V div 85 div 85 mod 85) * 85 + V div 85 mod 85) * 85 + V mod 85 = V"
proof -
  have s: "X div 85 * 85 + X mod 85 = X" for X :: nat
    by (rule div_mult_mod_eq)
  have "V div 85 div 85 div 85 div 85 < 85" using assms by simp
  then have "V div 85 div 85 div 85 div 85 mod 85 = V div 85 div 85 div 85 div 85" by simp
  then show ?thesis
    by (simp only: s)
qed

lemma five_Suc: "5 = Suc (Suc (Suc (Suc (Suc 0))))"
  by simp

lemma base85_digits_5:
  "base85_digits 5 v [] =
     [base85_table ! (unat v div 85 div 85 div 85 div 85 mod 85),
      base85_table ! (unat v div 85 div 85 div 85 mod 85),
      base85_table ! (unat v div 85 div 85 mod 85), base85_table ! (unat v div 85 mod 85),
      base85_table ! (unat v mod 85)]"
  by (simp only: five_Suc base85_digits.simps unat_mod unat_div) simp


lemma base85_bytes_block:
  "base85_bytes (base85_digits 5 v [] @ rest) =
     [of_nat (unat v div 2 ^ 24 mod 256), of_nat (unat v div 2 ^ 16 mod 256),
      of_nat (unat v div 2 ^ 8 mod 256), of_nat (unat v mod 256)] @ base85_bytes rest"
proof -
  have d: "base85_digit (base85_table ! (x mod 85)) = x mod 85" for x
    by (rule base85_digit_symbol) (simp add: less_trans [OF mod_less_divisor])
  have "unat v < 2 ^ 32" using unsigned_less [of v] by simp
  note r = base85_recompose [OF this]
  show ?thesis
    unfolding base85_digits_5 by (simp only: append_Cons append_Nil base85_bytes.simps d Let_def r)
qed

lemma byte_of_nat_drop:
  "of_nat (unat (v :: 32 word) div 2 ^ k mod 256) = (ucast (drop_bit k v) :: byte)"
proof -
  have e: "unat v div 2 ^ k mod 256 = take_bit 8 (drop_bit k (unat v))"
    by (simp add: take_bit_eq_mod drop_bit_eq_div)
  show ?thesis
    unfolding e by (rule bit_word_eqI) (auto simp: bit_simps)
qed

lemma base85_pack_bytes4:
  "ucast (drop_bit 24 (base85_pack [a, b, c, d])) = a"
  "ucast (drop_bit 16 (base85_pack [a, b, c, d])) = b"
  "ucast (drop_bit 8 (base85_pack [a, b, c, d])) = c"
  "ucast (drop_bit 0 (base85_pack [a, b, c, d])) = d"
  unfolding base85_pack_def
  by (simp; rule bit_word_eqI; auto simp: bit_simps dest: bit_byte_less)+

lemma base85_pack_bytes3:
  "ucast (drop_bit 24 (base85_pack [a, b, c])) = a"
  "ucast (drop_bit 16 (base85_pack [a, b, c])) = b"
  "ucast (drop_bit 8 (base85_pack [a, b, c])) = c"
  "ucast (drop_bit 0 (base85_pack [a, b, c])) = (0 :: byte)"
  unfolding base85_pack_def
  by (simp; rule bit_word_eqI; auto simp: bit_simps dest: bit_byte_less)+

lemma base85_pack_bytes2:
  "ucast (drop_bit 24 (base85_pack [a, b])) = a"
  "ucast (drop_bit 16 (base85_pack [a, b])) = b"
  "ucast (drop_bit 8 (base85_pack [a, b])) = (0 :: byte)"
  "ucast (drop_bit 0 (base85_pack [a, b])) = (0 :: byte)"
  unfolding base85_pack_def
  by (simp; rule bit_word_eqI; auto simp: bit_simps dest: bit_byte_less)+

lemma base85_pack_bytes1:
  "ucast (drop_bit 24 (base85_pack [a])) = a"
  "ucast (drop_bit 16 (base85_pack [a])) = (0 :: byte)"
  "ucast (drop_bit 8 (base85_pack [a])) = (0 :: byte)"
  "ucast (drop_bit 0 (base85_pack [a])) = (0 :: byte)"
  unfolding base85_pack_def
  by (simp; rule bit_word_eqI; auto simp: bit_simps dest: bit_byte_less)+


lemma base85_block_roundtrip:
  assumes "1 \<le> length block" "length block \<le> 4"
  shows "base85_bytes (base85_digits 5 (base85_pack block) [] @ rest) =
           block @ replicate (4 - length block) 0 @ base85_bytes rest"
proof -
  have m: "of_nat (unat v mod 256) = (ucast (drop_bit 0 v) :: byte)" for v :: "32 word"
    using byte_of_nat_drop [of v 0] by simp
  consider a where "block = [a]" | a b where "block = [a, b]"
    | a b c where "block = [a, b, c]" | a b c d where "block = [a, b, c, d]"
  proof (cases block)
    case Nil
    with assms show ?thesis by simp
  next
    case c1: (Cons a r1)
    show ?thesis
    proof (cases r1)
      case Nil
      with c1 that(1) show ?thesis by simp
    next
      case c2: (Cons b r2)
      show ?thesis
      proof (cases r2)
        case Nil
        with c1 c2 that(2) show ?thesis by simp
      next
        case c3: (Cons c r3)
        show ?thesis
        proof (cases r3)
          case Nil
          with c1 c2 c3 that(3) show ?thesis by simp
        next
          case c4: (Cons d r4)
          with c1 c2 c3 assms have "r4 = []" by simp
          with c1 c2 c3 c4 that(4) show ?thesis by simp
        qed
      qed
    qed
  qed
  then show ?thesis
  proof cases
    case 1
    show ?thesis unfolding 1 base85_bytes_block byte_of_nat_drop m base85_pack_bytes1
      by (simp add: numeral_3_eq_3)
  next
    case 2
    show ?thesis unfolding 2 base85_bytes_block byte_of_nat_drop m base85_pack_bytes2
      by (simp add: numeral_2_eq_2)
  next
    case 3
    show ?thesis unfolding 3 base85_bytes_block byte_of_nat_drop m base85_pack_bytes3
      by simp
  next
    case 4
    show ?thesis unfolding 4 base85_bytes_block byte_of_nat_drop m base85_pack_bytes4
      by simp
  qed
qed

lemma base85_encode_loop_acc:
  "base85_encode_loop p acc = acc @ base85_encode_loop p []"
proof (induction "length p" arbitrary: p acc rule: less_induct)
  case less
  show ?case
  proof (cases p)
    case Nil
    then show ?thesis by simp
  next
    case (Cons b bs)
    then have l: "length (drop 3 bs) < length p" by simp
    show ?thesis
      using less [OF l, of "acc @ base85_digits 5 (base85_pack (take 4 (b # bs))) []"]
        less [OF l, of "base85_digits 5 (base85_pack (take 4 (b # bs))) []"] Cons
      by simp
  qed
qed

lemma base85_encode_step:
  "p \<noteq> [] \<Longrightarrow>
     base85_encode p = base85_digits 5 (base85_pack (take 4 p)) [] @ base85_encode (drop 4 p)"
proof -
  assume "p \<noteq> []"
  then obtain b bs where p: "p = b # bs" by (cases p) auto
  show ?thesis
    unfolding p base85_encode_def base85_encode_loop.simps
    using base85_encode_loop_acc [of "drop 3 bs" "[] @ base85_digits 5 (base85_pack (take 4 (b # bs))) []"]
    by simp
qed

lemma pad4_short: "0 < n \<Longrightarrow> n < 4 \<Longrightarrow> (4 - n mod 4) mod 4 = 4 - (n :: nat)"
  by simp

lemma pad4_shift: "4 \<le> n \<Longrightarrow> (4 - (n - 4) mod 4) mod 4 = (4 - n mod 4) mod (4 :: nat)"
proof -
  assume "4 \<le> n"
  then obtain m where "n = m + 4" using le_Suc_ex by (metis add.commute)
  then show ?thesis by simp
qed

lemma base85_bytes_encode:
  "base85_bytes (base85_encode p) = p @ replicate ((4 - length p mod 4) mod 4) 0"
proof (induction "length p" arbitrary: p rule: less_induct)
  case less
  show ?case
  proof (cases "p = []")
    case True
    then show ?thesis by (simp add: base85_encode_def)
  next
    case False
    then have l: "length (drop 4 p) < length p" by simp
    have b: "1 \<le> length (take 4 p)" "length (take 4 p) \<le> 4"
      using False by (simp_all add: Suc_le_eq)
    have "base85_bytes (base85_encode p) =
        take 4 p @ replicate (4 - length (take 4 p)) 0 @ drop 4 p
          @ replicate ((4 - length (drop 4 p) mod 4) mod 4) 0"
      unfolding base85_encode_step [OF False] base85_block_roundtrip [OF b] less [OF l] ..
    also have "\<dots> = p @ replicate ((4 - length p mod 4) mod 4) 0"
    proof (cases "4 \<le> length p")
      case True
      then have "length (take 4 p) = 4" by simp
      moreover have "(4 - length (drop 4 p) mod 4) mod 4 = (4 - length p mod 4) mod 4"
        using pad4_shift [OF True] by simp
      ultimately show ?thesis by (simp only: diff_self_eq_0 replicate_0 append_Nil)
          (simp only: append_assoc [symmetric] append_take_drop_id)
    next
      case False
      with \<open>p \<noteq> []\<close> have n: "0 < length p" "length p < 4" by simp_all
      then have "take 4 p = p" "drop 4 p = []" by simp_all
      then show ?thesis using pad4_short [OF n] by simp
    qed
    finally show ?thesis .
  qed
qed


lemma base85_digits_in_table: "set (base85_digits 5 v []) \<subseteq> set base85_table"
proof -
  have "base85_table ! (x mod 85) \<in> set base85_table" for x
    by (rule nth_mem) (simp add: base85_table_length less_trans [OF mod_less_divisor])
  then show ?thesis unfolding base85_digits_5 by simp
qed

lemma base85_encode_props:
  "set (base85_encode p) \<subseteq> set base85_table \<and> length (base85_encode p) mod 5 = 0
     \<and> (p \<noteq> [] \<longrightarrow> base85_encode p \<noteq> [])"
proof (induction "length p" arbitrary: p rule: less_induct)
  case less
  show ?case
  proof (cases "p = []")
    case True
    then show ?thesis by (simp add: base85_encode_def)
  next
    case False
    then have l: "length (drop 4 p) < length p" by simp
    have n: "length (base85_digits 5 v []) = 5" for v
      unfolding base85_digits_5 by simp
    from less [OF l] base85_digits_in_table [of "base85_pack (take 4 p)"] show ?thesis
      unfolding base85_encode_step [OF False] using n [of "base85_pack (take 4 p)"]
      by (auto simp del: base85_digits.simps)
  qed
qed

lemma base85_clean_encode: "base85_clean (base85_encode p) = base85_encode p"
proof -
  have "set (base85_encode p) \<subseteq> set base85_table" using base85_encode_props by blast
  with base85_table_no_space show ?thesis
    unfolding base85_clean_def by (intro filter_True) blast
qed

lemma base85_roundtrip:
  "p \<noteq> [] \<Longrightarrow>
     base85_decode (base85_encode p) = Inr (p @ replicate ((4 - length p mod 4) mod 4) 0)"
proof -
  assume "p \<noteq> []"
  with base85_encode_props [of p] have a: "base85_encode p \<noteq> []"
    "length (base85_clean (base85_encode p)) mod 5 = 0"
    "set (base85_clean (base85_encode p)) \<subseteq> set base85_table"
    unfolding base85_clean_encode by blast+
  have "base85_decode_loop (base85_clean (base85_encode p)) [] =
      Inr (base85_bytes (base85_clean (base85_encode p)))"
    using a(3) by (simp add: base85_decode_loop_valid)
  with a show ?thesis
    unfolding base85_clean_encode
    by (simp add: base85_decode_def base85_bytes_encode
        base85_clean_encode [unfolded base85_clean_def])
qed

subsection \<open>Round trips of Base58 and Base62\<close>

lemma le_value_simps [simp]:
  "le_value r [] = 0" "le_value r (d # ds) = d + r * le_value r ds"
  by (simp_all add: le_value_def)

lemma le_value_append: "le_value r (xs @ ys) = le_value r xs + r ^ length xs * le_value r ys"
  by (induction xs) (simp_all add: algebra_simps)

lemma le_value_less: "list_all (\<lambda>d. d < r) ds \<Longrightarrow> le_value r ds < r ^ length ds"
proof (induction ds)
  case Nil
  show ?case by simp
next
  case (Cons d ds)
  then have d: "d < r" and v: "le_value r ds < r ^ length ds" by simp_all
  then have "le_value r ds + 1 \<le> r ^ length ds" by simp
  then have "r * (le_value r ds + 1) \<le> r * r ^ length ds" by (rule mult_le_mono2)
  with d show ?case by (simp add: algebra_simps)
qed

lemma le_value_ge: "ds \<noteq> [] \<Longrightarrow> last ds \<noteq> 0 \<Longrightarrow> r ^ (length ds - 1) \<le> le_value r ds"
proof (induction ds)
  case Nil
  then show ?case by simp
next
  case (Cons d ds)
  show ?case
  proof (cases "ds = []")
    case True
    with Cons.prems show ?thesis by simp
  next
    case False
    with Cons have "r ^ (length ds - 1) \<le> le_value r ds" by simp
    then have a: "r * r ^ (length ds - 1) \<le> r * le_value r ds" by (rule mult_le_mono2)
    have b: "r * r ^ (length ds - 1) = r ^ length ds"
      using False by (cases ds) simp_all
    have "r ^ (length (d # ds) - 1) = r * r ^ (length ds - 1)" using b by simp
    also have "\<dots> \<le> r * le_value r ds" by (rule a)
    also have "\<dots> \<le> le_value r (d # ds)" by simp
    finally show ?thesis .
  qed
qed

lemma le_value_top_zero:
  assumes "ds \<noteq> []" "last ds = 0" "list_all (\<lambda>d. d < r) ds"
  shows "le_value r ds < r ^ (length ds - 1)"
proof -
  from assms(1,2) have e: "ds = butlast ds @ [0]" by (metis append_butlast_last_id)
  have "list_all (\<lambda>d. d < r) (butlast ds)"
    using assms(3) by (metis e list_all_append)
  from le_value_less [OF this] have "le_value r (butlast ds) < r ^ (length ds - 1)" by simp
  moreover have "le_value r ds = le_value r (butlast ds)"
    by (subst e) (simp add: le_value_append)
  ultimately show ?thesis by simp
qed

lemma canon_zero: "canon r ds \<Longrightarrow> 0 < r \<Longrightarrow> le_value r ds = 0 \<Longrightarrow> ds = []"
proof (rule ccontr)
  assume c: "canon r ds" and r: "0 < r" and v: "le_value r ds = 0" and n: "ds \<noteq> []"
  then have "last ds \<noteq> 0" by (simp add: canon_def)
  from le_value_ge [OF n this, of r] v r show False by simp
qed

lemma canon_tail: "canon r (d # ds) \<Longrightarrow> canon r ds"
  by (cases "ds = []") (simp_all add: canon_def)

lemma canon_unique:
  "canon r xs \<Longrightarrow> canon r ys \<Longrightarrow> 0 < r \<Longrightarrow> le_value r xs = le_value r ys \<Longrightarrow> xs = ys"
proof (induction xs arbitrary: ys)
  case Nil
  then show ?case using canon_zero [of r ys] by simp
next
  case (Cons x xs)
  show ?case
  proof (cases ys)
    case Nil
    with Cons.prems canon_zero [of r "x # xs"] show ?thesis by simp
  next
    case ys: (Cons y ys')
    from Cons.prems(1) have x: "x < r" by (simp add: canon_def)
    from Cons.prems(2) ys have y: "y < r" by (simp add: canon_def)
    from Cons.prems(4) ys have e: "x + r * le_value r xs = y + r * le_value r ys'" by simp
    have "(x + r * le_value r xs) mod r = x" "(y + r * le_value r ys') mod r = y"
      using x y by simp_all
    with e have xy: "x = y" by simp
    have "(x + r * le_value r xs) div r = le_value r xs"
      "(y + r * le_value r ys') div r = le_value r ys'"
      using x y by simp_all
    with e have "le_value r xs = le_value r ys'" by simp
    from Cons.IH [OF canon_tail [OF Cons.prems(1)] canon_tail [OF Cons.prems(2) [unfolded ys]]
        Cons.prems(3) this] xy ys
    show ?thesis by simp
  qed
qed

lemma gen_pass_props:
  "0 < r \<Longrightarrow> gen_pass f r c ds = (ds', c') \<Longrightarrow>
     length ds' = length ds \<and> list_all (\<lambda>d. d < r) ds'
     \<and> le_value r ds' + r ^ length ds * c' = c + f * le_value r ds"
proof (induction ds arbitrary: c ds' c')
  case Nil
  then show ?case by simp
next
  case (Cons d ds)
  obtain es e' where g: "gen_pass f r ((c + f * d) div r) ds = (es, e')"
    by (cases "gen_pass f r ((c + f * d) div r) ds")
  with Cons.prems(2) have r: "ds' = (c + f * d) mod r # es" "c' = e'"
    by (simp_all add: Let_def)
  from Cons.IH [OF Cons.prems(1) g] have i: "length es = length ds"
    "list_all (\<lambda>d. d < r) es"
    "le_value r es + r ^ length ds * e' = (c + f * d) div r + f * le_value r ds" by simp_all
  have "le_value r ds' + r ^ length (d # ds) * c'
      = (c + f * d) mod r + r * (le_value r es + r ^ length ds * e')"
    unfolding r by (simp add: algebra_simps)
  also have "\<dots> = (c + f * d) mod r + r * ((c + f * d) div r) + r * (f * le_value r ds)"
    unfolding i(3) by (simp add: algebra_simps)
  also have "\<dots> = c + f * d + r * (f * le_value r ds)"
    by simp
  also have "\<dots> = c + f * le_value r (d # ds)"
    by (simp add: algebra_simps)
  finally show ?case using i(1,2) Cons.prems(1) unfolding r by simp
qed

lemma gen_step:
  assumes c: "canon r ds" and r: "0 < r" and f: "0 < f"
    and g: "gen_pass f r c0 ds = (ds', c')"
    and e: "list_all (\<lambda>d. d < r) ext" "le_value r ext = c'"
      "0 < c' \<longrightarrow> ext \<noteq> [] \<and> last ext \<noteq> 0" "c' = 0 \<longrightarrow> ext = []"
  shows "canon r (ds' @ ext) \<and> le_value r (ds' @ ext) = c0 + f * le_value r ds"
proof -
  from gen_pass_props [OF r g] have p: "length ds' = length ds" "list_all (\<lambda>d. d < r) ds'"
    "le_value r ds' + r ^ length ds * c' = c0 + f * le_value r ds" by simp_all
  have v: "le_value r (ds' @ ext) = c0 + f * le_value r ds"
    unfolding le_value_append e(2) p(1) by (rule p(3))
  have "ds' @ ext = [] \<or> last (ds' @ ext) \<noteq> 0"
  proof (cases "0 < c'")
    case True
    with e(3) show ?thesis by simp
  next
    case False
    then have z: "c' = 0" "ext = []" using e(4) by simp_all
    show ?thesis
    proof (cases "ds = []")
      case True
      with p(1) z show ?thesis by simp
    next
      case False
      with c have "last ds \<noteq> 0" by (simp add: canon_def)
      from le_value_ge [OF False this, of r] have "r ^ (length ds - 1) \<le> le_value r ds" .
      also have "\<dots> \<le> f * le_value r ds" using f by simp
      also have "\<dots> \<le> le_value r ds'" using p(3) z by simp
      finally have lo: "r ^ (length ds' - 1) \<le> le_value r ds'" unfolding p(1) .
      have ne: "ds' \<noteq> []" using False p(1) by auto
      have "last ds' \<noteq> 0"
      proof
        assume "last ds' = 0"
        from le_value_top_zero [OF ne this p(2)] lo show False by simp
      qed
      with z show ?thesis by simp
    qed
  qed
  with p(2) e(1) v show ?thesis by (simp add: canon_def)
qed

lemma base58_encode_flush_ext:
  "\<exists>ext. base58_encode_flush c res = res @ ext \<and> list_all (\<lambda>d. d < 58) ext \<and> le_value 58 ext = c
     \<and> (0 < c \<longrightarrow> ext \<noteq> [] \<and> last ext \<noteq> 0) \<and> (c = 0 \<longrightarrow> ext = [])"
proof (induction c res rule: base58_encode_flush.induct)
  case (1 c res)
  show ?case
  proof (cases "0 < c")
    case False
    then have "c = 0" by simp
    then show ?thesis by (simp only: base58_encode_flush_0) simp
  next
    case True
    from "1.IH" [OF True] obtain ext where
      ee: "base58_encode_flush (c div 58) (res @ [c mod 58]) = (res @ [c mod 58]) @ ext \<and>
        list_all (\<lambda>d. d < 58) ext \<and> le_value 58 ext = c div 58 \<and>
        (0 < c div 58 \<longrightarrow> ext \<noteq> [] \<and> last ext \<noteq> 0) \<and> (c div 58 = 0 \<longrightarrow> ext = [])"
      by (erule exE)
    note e = ee [THEN conjunct1] ee [THEN conjunct2, THEN conjunct1]
      ee [THEN conjunct2, THEN conjunct2, THEN conjunct1]
      ee [THEN conjunct2, THEN conjunct2, THEN conjunct2, THEN conjunct1]
      ee [THEN conjunct2, THEN conjunct2, THEN conjunct2, THEN conjunct2]
    have l: "last (c mod 58 # ext) \<noteq> 0"
    proof (cases "c div 58 = 0")
      case True
      with e(5) \<open>0 < c\<close> show ?thesis by (simp add: div_eq_0_iff)
    next
      case False
      with e(4) show ?thesis by simp
    qed
    have "base58_encode_flush c res = base58_encode_flush (c div 58) (res @ [c mod 58])"
      using True by (rule base58_encode_flush_pos)
    then have "base58_encode_flush c res = res @ (c mod 58 # ext)"
      unfolding e(1) by simp
    moreover have "list_all (\<lambda>d. d < 58) (c mod 58 # ext)" using e(2) by simp
    moreover have "le_value 58 (c mod 58 # ext) = c" using e(3) by simp
    ultimately show ?thesis using l True by blast
  qed
qed

lemma base62_encode_flush_ext:
  "\<exists>ext. base62_encode_flush c res = res @ ext \<and> list_all (\<lambda>d. d < 62) ext \<and> le_value 62 ext = c
     \<and> (0 < c \<longrightarrow> ext \<noteq> [] \<and> last ext \<noteq> 0) \<and> (c = 0 \<longrightarrow> ext = [])"
proof (induction c res rule: base62_encode_flush.induct)
  case (1 c res)
  show ?case
  proof (cases "0 < c")
    case False
    then have "c = 0" by simp
    then show ?thesis by (simp only: base62_encode_flush_0) simp
  next
    case True
    from "1.IH" [OF True] obtain ext where
      ee: "base62_encode_flush (c div 62) (res @ [c mod 62]) = (res @ [c mod 62]) @ ext \<and>
        list_all (\<lambda>d. d < 62) ext \<and> le_value 62 ext = c div 62 \<and>
        (0 < c div 62 \<longrightarrow> ext \<noteq> [] \<and> last ext \<noteq> 0) \<and> (c div 62 = 0 \<longrightarrow> ext = [])"
      by (erule exE)
    note e = ee [THEN conjunct1] ee [THEN conjunct2, THEN conjunct1]
      ee [THEN conjunct2, THEN conjunct2, THEN conjunct1]
      ee [THEN conjunct2, THEN conjunct2, THEN conjunct2, THEN conjunct1]
      ee [THEN conjunct2, THEN conjunct2, THEN conjunct2, THEN conjunct2]
    have l: "last (c mod 62 # ext) \<noteq> 0"
    proof (cases "c div 62 = 0")
      case True
      with e(5) \<open>0 < c\<close> show ?thesis by (simp add: div_eq_0_iff)
    next
      case False
      with e(4) show ?thesis by simp
    qed
    have "base62_encode_flush c res = base62_encode_flush (c div 62) (res @ [c mod 62])"
      using True by (rule base62_encode_flush_pos)
    then have "base62_encode_flush c res = res @ (c mod 62 # ext)"
      unfolding e(1) by simp
    moreover have "list_all (\<lambda>d. d < 62) (c mod 62 # ext)" using e(2) by simp
    moreover have "le_value 62 (c mod 62 # ext) = c" using e(3) by simp
    ultimately show ?thesis using l True by blast
  qed
qed

lemma flush256_ext:
  "\<exists>ext. flush256 c res = res @ ext \<and> list_all (\<lambda>d. d < 256) ext \<and> le_value 256 ext = c
     \<and> (0 < c \<longrightarrow> ext \<noteq> [] \<and> last ext \<noteq> 0) \<and> (c = 0 \<longrightarrow> ext = [])"
proof (induction c res rule: flush256.induct)
  case (1 c res)
  show ?case
  proof (cases "0 < c")
    case False
    then have "c = 0" by simp
    then show ?thesis by (simp only: flush256_0) simp
  next
    case True
    from "1.IH" [OF True] obtain ext where
      ee: "flush256 (c div 256) (res @ [c mod 256]) = (res @ [c mod 256]) @ ext \<and>
        list_all (\<lambda>d. d < 256) ext \<and> le_value 256 ext = c div 256 \<and>
        (0 < c div 256 \<longrightarrow> ext \<noteq> [] \<and> last ext \<noteq> 0) \<and> (c div 256 = 0 \<longrightarrow> ext = [])"
      by (erule exE)
    note e = ee [THEN conjunct1] ee [THEN conjunct2, THEN conjunct1]
      ee [THEN conjunct2, THEN conjunct2, THEN conjunct1]
      ee [THEN conjunct2, THEN conjunct2, THEN conjunct2, THEN conjunct1]
      ee [THEN conjunct2, THEN conjunct2, THEN conjunct2, THEN conjunct2]
    have l: "last (c mod 256 # ext) \<noteq> 0"
    proof (cases "c div 256 = 0")
      case True
      with e(5) \<open>0 < c\<close> show ?thesis by (simp add: div_eq_0_iff)
    next
      case False
      with e(4) show ?thesis by simp
    qed
    have "flush256 c res = flush256 (c div 256) (res @ [c mod 256])"
      using True by (rule flush256_pos)
    then have "flush256 c res = res @ (c mod 256 # ext)"
      unfolding e(1) by simp
    moreover have "list_all (\<lambda>d. d < 256) (c mod 256 # ext)" using e(2) by simp
    moreover have "le_value 256 (c mod 256 # ext) = c" using e(3) by simp
    ultimately show ?thesis using l True by blast
  qed
qed

lemma base58_encode_pass_gen: "base58_encode_pass c ds = gen_pass 256 58 c ds"
  by (induction ds arbitrary: c) simp_all

lemma base62_encode_pass_gen: "base62_encode_pass c ds = gen_pass 256 62 c ds"
  by (induction ds arbitrary: c) simp_all

lemma base58_decode_pass_gen: "base58_decode_pass c ds = gen_pass 58 256 c ds"
  by (induction ds arbitrary: c) (simp_all add: mult.commute)

lemma base62_mul_pass_gen: "base62_mul_pass c ds = gen_pass 62 256 c ds"
  by (induction ds arbitrary: c) (simp_all add: mult.commute add.commute)

lemma gen_pass_one_zero:
  "list_all (\<lambda>d. d < r) ds \<Longrightarrow> gen_pass 1 r 0 ds = (ds, 0)"
  by (induction ds) simp_all

lemma base62_add_pass_gen:
  "list_all (\<lambda>d. d < 256) ds \<Longrightarrow> base62_add_pass c ds = gen_pass 1 256 c ds"
proof (induction ds arbitrary: c)
  case Nil
  show ?case by simp
next
  case (Cons d ds)
  then have a: "list_all (\<lambda>d. d < 256) ds" by simp
  show ?case
  proof (cases "(d + c) div 256 = 0")
    case True
    then show ?thesis
      using gen_pass_one_zero [OF a] by (simp add: Let_def add.commute)
  next
    case False
    then show ?thesis
      using Cons.IH [OF a] by (simp add: Let_def add.commute)
  qed
qed

lemma le_value_rev_foldl: "foldl (\<lambda>v d. r * v + d) 0 (rev ds) = le_value r ds"
  by (induction ds) (simp_all add: add.commute)

lemma be_value_le_value: "be_value p = le_value 256 (rev (map unat p))"
proof -
  have "be_value p = foldl (\<lambda>v d. 256 * v + d) 0 (map unat p)"
    by (simp add: be_value_def foldl_map)
  also have "\<dots> = le_value 256 (rev (map unat p))"
    using le_value_rev_foldl [of 256 "rev (map unat p)"] by simp
  finally show ?thesis .
qed

lemma canon_payload:
  fixes p :: "byte list"
  shows "p = [] \<or> hd p \<noteq> 0 \<Longrightarrow> canon 256 (rev (map unat p))"
proof -
  assume a: "p = [] \<or> hd p \<noteq> 0"
  have "unat b < 256" for b :: byte
    using unsigned_less [of b] by simp
  then have "list_all (\<lambda>d. d < 256) (rev (map unat p))"
    by (simp add: list_all_iff)
  moreover have "rev (map unat p) = [] \<or> last (rev (map unat p)) \<noteq> 0"
  proof (cases p)
    case Nil
    then show ?thesis by simp
  next
    case (Cons b bs)
    with a show ?thesis by (simp add: unsigned_eq_0_iff)
  qed
  ultimately show ?thesis by (simp add: canon_def)
qed

lemma base58_encode_main_inv:
  "canon 58 res \<Longrightarrow>
     canon 58 (base58_encode_main bs res) \<and>
     le_value 58 (base58_encode_main bs res) =
       foldl (\<lambda>v b. 256 * v + unat b) (le_value 58 res) bs"
proof (induction bs arbitrary: res)
  case Nil
  then show ?case by simp
next
  case (Cons b bs)
  obtain res' c' where g: "gen_pass 256 58 (unat b) res = (res', c')"
    by (cases "gen_pass 256 58 (unat b) res")
  obtain ext where e: "base58_encode_flush c' res' = res' @ ext \<and>
      list_all (\<lambda>d. d < 58) ext \<and> le_value 58 ext = c' \<and>
      (0 < c' \<longrightarrow> ext \<noteq> [] \<and> last ext \<noteq> 0) \<and> (c' = 0 \<longrightarrow> ext = [])"
    using base58_encode_flush_ext [of c' res'] by (erule exE)
  have s: "canon 58 (res' @ ext) \<and> le_value 58 (res' @ ext) = unat b + 256 * le_value 58 res"
    by (rule gen_step [OF Cons.prems _ _ g]) (use e in simp_all)
  have m: "base58_encode_main (b # bs) res = base58_encode_main bs (res' @ ext)"
    using g e by (simp add: base58_encode_pass_gen)
  from Cons.IH [of "res' @ ext"] s show ?case
    unfolding m by (simp add: add.commute)
qed

lemma base62_encode_main_inv:
  "canon 62 res \<Longrightarrow>
     canon 62 (base62_encode_main bs res) \<and>
     le_value 62 (base62_encode_main bs res) =
       foldl (\<lambda>v b. 256 * v + unat b) (le_value 62 res) bs"
proof (induction bs arbitrary: res)
  case Nil
  then show ?case by simp
next
  case (Cons b bs)
  obtain res' c' where g: "gen_pass 256 62 (unat b) res = (res', c')"
    by (cases "gen_pass 256 62 (unat b) res")
  obtain ext where e: "base62_encode_flush c' res' = res' @ ext \<and>
      list_all (\<lambda>d. d < 62) ext \<and> le_value 62 ext = c' \<and>
      (0 < c' \<longrightarrow> ext \<noteq> [] \<and> last ext \<noteq> 0) \<and> (c' = 0 \<longrightarrow> ext = [])"
    using base62_encode_flush_ext [of c' res'] by (erule exE)
  have s: "canon 62 (res' @ ext) \<and> le_value 62 (res' @ ext) = unat b + 256 * le_value 62 res"
    by (rule gen_step [OF Cons.prems _ _ g]) (use e in simp_all)
  have m: "base62_encode_main (b # bs) res = base62_encode_main bs (res' @ ext)"
    using g e by (simp add: base62_encode_pass_gen)
  from Cons.IH [of "res' @ ext"] s show ?case
    unfolding m by (simp add: add.commute)
qed

lemma base58_decode_main_inv:
  "canon 256 out \<Longrightarrow> list_all (\<lambda>c. c \<in> set base58_table) cs \<Longrightarrow>
     \<exists>out'. base58_decode_main cs out = Inr out' \<and> canon 256 out' \<and>
       le_value 256 out' =
         foldl (\<lambda>v c. 58 * v + nat (find_index c base58_table)) (le_value 256 out) cs"
proof (induction cs arbitrary: out)
  case Nil
  then show ?case by simp
next
  case (Cons c cs)
  then have v: "c \<in> set base58_table" "list_all (\<lambda>c. c \<in> set base58_table) cs" by simp_all
  define k where "k = nat (find_index c base58_table)"
  have f: "find_index c base58_table \<noteq> -1" using v(1) by (simp add: find_index_eq_minus1)
  obtain res' c' where g: "gen_pass 58 256 k out = (res', c')"
    by (cases "gen_pass 58 256 k out")
  obtain ext where e: "flush256 c' res' = res' @ ext \<and>
      list_all (\<lambda>d. d < 256) ext \<and> le_value 256 ext = c' \<and>
      (0 < c' \<longrightarrow> ext \<noteq> [] \<and> last ext \<noteq> 0) \<and> (c' = 0 \<longrightarrow> ext = [])"
    using flush256_ext [of c' res'] by (erule exE)
  have s: "canon 256 (res' @ ext) \<and> le_value 256 (res' @ ext) = k + 58 * le_value 256 out"
    by (rule gen_step [OF Cons.prems(1) _ _ g]) (use e in simp_all)
  have m: "base58_decode_main (c # cs) out = base58_decode_main cs (res' @ ext)"
    using g e f by (simp add: base58_decode_pass_gen Let_def flip: k_def)
  from Cons.IH [OF _ v(2), of "res' @ ext"] s show ?case
    unfolding m by (simp add: add.commute k_def)
qed

lemma base58_table_distinct: "distinct base58_table"
  by (simp add: base58_table_def)

lemma base58_table_length: "length base58_table = 58"
  by (simp add: base58_table_def)

lemma base62_table_distinct: "distinct base62_table"
  by (simp add: base62_table_def)

lemma base62_table_length: "length base62_table = 62"
  by (simp add: base62_table_def)

lemma foldl_digits_map:
  assumes "distinct table" "list_all (\<lambda>d. d < length table) ds"
  shows "foldl (\<lambda>v c. r * v + nat (find_index c table)) a (map (\<lambda>d. table ! d) ds)
           = foldl (\<lambda>v d. r * v + d) a ds"
  using assms(2)
proof (induction ds arbitrary: a)
  case Nil
  show ?case by simp
next
  case (Cons d ds)
  then have "d < length table" "list_all (\<lambda>d. d < length table) ds" by simp_all
  with Cons.IH find_index_nth [OF assms(1), of d] show ?case by simp
qed

lemma symbols_in_table:
  "list_all (\<lambda>d. d < length table) ds \<Longrightarrow>
     list_all (\<lambda>c. c \<in> set table) (map (\<lambda>d. table ! d) ds)"
  by (induction ds) simp_all

lemma base58_zero_count_text:
  assumes "canon 58 res"
  shows "base58_zero_count (map (\<lambda>d. base58_table ! d) (rev res)) = 0"
proof (cases "res = []")
  case True
  then show ?thesis by simp
next
  case False
  with assms have l: "last res \<noteq> 0" "last res < 58"
    by (simp_all add: canon_def list_all_iff)
  from False obtain ds where r: "rev res = last res # ds"
    by (metis list.exhaust_sel rev_is_Nil_conv hd_rev)
  have "base58_table ! last res \<noteq> base58_table ! 0"
    using l base58_table_distinct by (simp add: nth_eq_iff_index_eq base58_table_length)
  then show ?thesis unfolding r by simp
qed

lemma base58_roundtrip:
  assumes "p = [] \<or> hd p \<noteq> 0"
  shows "base58_decode (base58_encode p) = Inr p"
proof -
  define res where "res = base58_encode_main p []"
  have z: "leading_zeros p = 0" using assms by (cases p) auto
  have e: "base58_encode p = map (\<lambda>d. base58_table ! d) (rev res)"
    by (simp add: base58_encode_def z res_def)
  have c0: "canon 58 []" by (simp add: canon_def)
  from base58_encode_main_inv [OF c0, of p]
  have c: "canon 58 res" and v: "le_value 58 res = be_value p"
    by (simp_all add: res_def be_value_def)
  from c have d: "list_all (\<lambda>d. d < length base58_table) (rev res)"
    by (simp add: canon_def base58_table_length)
  have c256: "canon 256 []" by (simp add: canon_def)
  from base58_decode_main_inv [OF c256 symbols_in_table [OF d]] obtain out' where
    o: "base58_decode_main (map (\<lambda>d. base58_table ! d) (rev res)) [] = Inr out'"
      "canon 256 out'"
      "le_value 256 out' = foldl (\<lambda>v c. 58 * v + nat (find_index c base58_table))
          (le_value 256 []) (map (\<lambda>d. base58_table ! d) (rev res))"
    by blast
  have "le_value 256 out' = foldl (\<lambda>v d. 58 * v + d) 0 (rev res)"
    unfolding o(3) using foldl_digits_map [OF base58_table_distinct d] by simp
  also have "\<dots> = le_value 58 res" by (rule le_value_rev_foldl)
  also have "\<dots> = le_value 256 (rev (map unat p))"
    unfolding v by (rule be_value_le_value)
  finally have "out' = rev (map unat p)"
    using canon_unique [OF o(2) canon_payload [OF assms]] by simp
  then have "map of_nat (rev out') = p" by (simp add: comp_def map_idI)
  then show ?thesis
    unfolding e by (simp add: base58_decode_def base58_zero_count_text [OF c] o(1) Let_def
        del: base58_zero_count.simps)
qed

lemma base62_decode_main_inv:
  "canon 256 buf \<Longrightarrow> list_all (\<lambda>c. c \<in> set base62_table) cs \<Longrightarrow>
     canon 256 (base62_decode_main cs buf) \<and>
     le_value 256 (base62_decode_main cs buf) =
       foldl (\<lambda>v c. 62 * v + nat (find_index c base62_table)) (le_value 256 buf) cs"
proof (induction cs arbitrary: buf)
  case Nil
  then show ?case by simp
next
  case (Cons c cs)
  then have v: "list_all (\<lambda>c. c \<in> set base62_table) cs" by simp
  define k where "k = nat (find_index c base62_table)"
  obtain b1 c1 where g1: "gen_pass 62 256 0 buf = (b1, c1)"
    by (cases "gen_pass 62 256 0 buf")
  obtain e1 where e1: "flush256 c1 b1 = b1 @ e1 \<and>
      list_all (\<lambda>d. d < 256) e1 \<and> le_value 256 e1 = c1 \<and>
      (0 < c1 \<longrightarrow> e1 \<noteq> [] \<and> last e1 \<noteq> 0) \<and> (c1 = 0 \<longrightarrow> e1 = [])"
    using flush256_ext [of c1 b1] by (erule exE)
  have s1: "canon 256 (b1 @ e1) \<and> le_value 256 (b1 @ e1) = 0 + 62 * le_value 256 buf"
    by (rule gen_step [OF Cons.prems(1) _ _ g1]) (use e1 in simp_all)
  then have a1: "list_all (\<lambda>d. d < 256) (b1 @ e1)" by (simp add: canon_def)
  obtain b3 c3 where g3: "gen_pass 1 256 k (b1 @ e1) = (b3, c3)"
    by (cases "gen_pass 1 256 k (b1 @ e1)")
  obtain e3 where e3: "flush256 c3 b3 = b3 @ e3 \<and>
      list_all (\<lambda>d. d < 256) e3 \<and> le_value 256 e3 = c3 \<and>
      (0 < c3 \<longrightarrow> e3 \<noteq> [] \<and> last e3 \<noteq> 0) \<and> (c3 = 0 \<longrightarrow> e3 = [])"
    using flush256_ext [of c3 b3] by (erule exE)
  have s3: "canon 256 (b3 @ e3) \<and> le_value 256 (b3 @ e3) = k + 1 * le_value 256 (b1 @ e1)"
    by (rule gen_step [OF conjunct1 [OF s1] _ _ g3]) (use e3 in simp_all)
  have m: "base62_decode_main (c # cs) buf = base62_decode_main cs (b3 @ e3)"
    using g1 e1 g3 e3 base62_add_pass_gen [OF a1, of k]
    by (simp add: base62_mul_pass_gen Let_def flip: k_def)
  from Cons.IH [OF _ v, of "b3 @ e3"] s3 s1 show ?case
    unfolding m by (simp add: add.commute k_def)
qed

lemma base62_decode_main_first:
  assumes "0 < d" "d < 62"
  shows "base62_decode_main (base62_table ! d # cs) [0] = base62_decode_main cs [d]"
proof -
  have k: "nat (find_index (base62_table ! d) base62_table) = d"
    using find_index_nth [OF base62_table_distinct, of d] assms
    by (simp add: base62_table_length)
  from assms have "d div 256 = 0" "d mod 256 = d" by simp_all
  then show ?thesis
    by (simp add: k flush256_0 Let_def)
qed

lemma be_value_zero_Cons: "be_value (0 # p) = be_value p"
  by (simp add: be_value_def)

lemma be_value_dropWhile: "be_value (dropWhile (\<lambda>b. b = 0) p) = be_value p"
  by (induction p) (simp_all add: be_value_zero_Cons)

lemma base62_roundtrip:
  "base62_decode (base62_encode p) =
     (if dropWhile (\<lambda>b. b = 0) p = [] then Inl EmptyInputError
      else Inr (dropWhile (\<lambda>b. b = 0) p))"
proof -
  define q where "q = dropWhile (\<lambda>b. b = 0) p"
  define res where "res = base62_encode_main p []"
  have e: "base62_encode p = map (\<lambda>d. base62_table ! d) (rev res)"
    by (simp add: base62_encode_def res_def)
  have c0: "canon 62 []" by (simp add: canon_def)
  from base62_encode_main_inv [OF c0, of p]
  have c: "canon 62 res" and v: "le_value 62 res = be_value p"
    by (simp_all add: res_def be_value_def)
  have hq: "q = [] \<or> hd q \<noteq> 0"
    unfolding q_def by (metis (mono_tags, lifting) hd_dropWhile)
  have cq: "canon 256 (rev (map unat q))" by (rule canon_payload [OF hq])
  have vq: "le_value 256 (rev (map unat q)) = be_value p"
    unfolding q_def be_value_le_value [symmetric] by (rule be_value_dropWhile)
  show ?thesis
  proof (cases "q = []")
    case True
    then have "be_value p = 0" using vq by simp
    with v canon_zero [OF c] have "res = []" by simp
    with True show ?thesis unfolding e by (simp add: base62_decode_def q_def)
  next
    case False
    have "be_value p \<noteq> 0"
    proof
      assume "be_value p = 0"
      with vq canon_zero [OF cq] have "rev (map unat q) = []" by simp
      with False show False by simp
    qed
    with v have rn: "res \<noteq> []" by auto
    with c have l: "0 < last res" "last res < 62" by (simp_all add: canon_def list_all_iff)
    from rn obtain ds where r: "rev res = last res # ds"
      by (metis list.exhaust_sel rev_is_Nil_conv hd_rev)
    from c have d: "list_all (\<lambda>d. d < length base62_table) (rev res)"
      by (simp add: canon_def base62_table_length)
    then have dd: "list_all (\<lambda>d. d < length base62_table) ds" unfolding r by simp
    have cl: "canon 256 [last res]" using l by (simp add: canon_def)
    have valid: "list_all (\<lambda>c. c \<in> set base62_table) (map (\<lambda>d. base62_table ! d) (rev res))"
      by (rule symbols_in_table [OF d])
    define out' where "out' = base62_decode_main (map (\<lambda>d. base62_table ! d) (rev res)) [0]"
    have o: "out' = base62_decode_main (map (\<lambda>d. base62_table ! d) ds) [last res]"
      unfolding out'_def r using base62_decode_main_first [OF l] by simp
    from base62_decode_main_inv [OF cl symbols_in_table [OF dd]]
    have co: "canon 256 out'" and
      vo: "le_value 256 out' = foldl (\<lambda>v c. 62 * v + nat (find_index c base62_table))
          (le_value 256 [last res]) (map (\<lambda>d. base62_table ! d) ds)"
      unfolding o by simp_all
    have "le_value 256 out' = foldl (\<lambda>v d. 62 * v + d) (last res) ds"
      unfolding vo using foldl_digits_map [OF base62_table_distinct dd] by simp
    also have "\<dots> = foldl (\<lambda>v d. 62 * v + d) 0 (rev res)"
      unfolding r by simp
    also have "\<dots> = le_value 62 res" by (rule le_value_rev_foldl)
    finally have "le_value 256 out' = le_value 256 (rev (map unat q))"
      unfolding v vq .
    from canon_unique [OF co cq _ this] have "out' = rev (map unat q)" by simp
    then have "map of_nat (rev out') = q" by (simp add: comp_def map_idI)
    moreover have "\<not> (\<exists>c \<in> set (map (\<lambda>d. base62_table ! d) (rev res)).
        find_index c base62_table = -1)"
      using valid by (simp add: list_all_iff find_index_eq_minus1)
    moreover have "map (\<lambda>d. base62_table ! d) (rev res) \<noteq> []" using rn by simp
    ultimately show ?thesis
      unfolding e using False
      by (simp add: base62_decode_def q_def flip: out'_def)
  qed
qed

subsection \<open>Round trip of Base32\<close>

lemma Suc_diff_simps:
  "1 \<le> n \<Longrightarrow> Suc (n - 1) = n" "\<not> n < 1 \<Longrightarrow> Suc (n - 1) = n"
  "3 \<le> n \<Longrightarrow> Suc (Suc (Suc (n - 3))) = n" "\<not> n < 3 \<Longrightarrow> Suc (Suc (Suc (n - 3))) = n"
  "4 \<le> n \<Longrightarrow> Suc (Suc (Suc (Suc (n - 4)))) = n"
  "\<not> n < 4 \<Longrightarrow> Suc (Suc (Suc (Suc (n - 4)))) = n"
  by simp_all

lemma bit_16_iff:
  "bit (16 :: 'a::len word) n \<longleftrightarrow> n = 4 \<and> 4 < LENGTH('a)"
  "bit (16 :: nat) n \<longleftrightarrow> n = 4" "bit (16 :: int) n \<longleftrightarrow> n = 4"
proof -
  have "(16 :: 'a word) = push_bit 4 1" by simp
  then show "bit (16 :: 'a::len word) n \<longleftrightarrow> n = 4 \<and> 4 < LENGTH('a)"
    by (simp only: bit_simps) auto
  have "(16 :: nat) = push_bit 4 1" by simp
  then show "bit (16 :: nat) n \<longleftrightarrow> n = 4"
    by (simp only: bit_simps) auto
  have "(16 :: int) = push_bit 4 1" by simp
  then show "bit (16 :: int) n \<longleftrightarrow> n = 4"
    by (simp only: bit_simps) auto
qed

lemma bit_times_2_iff:
  "bit (a * 2 :: 'a::len word) n \<longleftrightarrow> n < LENGTH('a) \<and> n \<noteq> 0 \<and> bit a (n - 1)"
  using bit_double_iff [of a n] by (simp add: mult.commute)

lemma base32_x:
  fixes v :: "32 word" and b0 b1 b2 b3 b4 :: byte
  shows "drop_bit 3 (push_bit 8 v OR ucast b0) AND 0x1F = ucast (drop_bit 3 b0)"
    and "drop_bit 6 (push_bit 8 (push_bit 8 v OR ucast b0) OR ucast b1) AND 0x1F
          = ucast (push_bit 2 (b0 AND 7) OR drop_bit 6 b1)"
    and "drop_bit 1 (push_bit 8 v OR ucast b1) AND 0x1F = ucast (drop_bit 1 b1 AND 0x1F)"
    and "drop_bit 4 (push_bit 8 (push_bit 8 v OR ucast b1) OR ucast b2) AND 0x1F
          = ucast (push_bit 4 (b1 AND 1) OR drop_bit 4 b2)"
    and "drop_bit 7 (push_bit 8 (push_bit 8 v OR ucast b2) OR ucast b3) AND 0x1F
          = ucast (push_bit 1 (b2 AND 0x0F) OR drop_bit 7 b3)"
    and "drop_bit 2 (push_bit 8 v OR ucast b3) AND 0x1F = ucast (drop_bit 2 b3 AND 0x1F)"
    and "drop_bit 5 (push_bit 8 (push_bit 8 v OR ucast b3) OR ucast b4) AND 0x1F
          = ucast (push_bit 3 (b3 AND 3) OR drop_bit 5 b4)"
    and "(push_bit 8 v OR ucast b4) AND 0x1F = ucast (b4 AND 0x1F)"
proof -
  show "drop_bit 3 (push_bit 8 v OR ucast b0) AND 0x1F = ucast (drop_bit 3 b0)"
    unfolding mask_numerals32 mask_numerals8
    by (rule bit_word_eqI) (auto simp: bit_simps bit_16_iff bit_times_2_iff Suc_Suc_diff2 Suc_diff_simps dest: bit_byte_less)
  show "drop_bit 6 (push_bit 8 (push_bit 8 v OR ucast b0) OR ucast b1) AND 0x1F
          = ucast (push_bit 2 (b0 AND 7) OR drop_bit 6 b1)"
    unfolding mask_numerals32 mask_numerals8
    by (rule bit_word_eqI) (auto simp: bit_simps bit_16_iff bit_times_2_iff Suc_Suc_diff2 Suc_diff_simps dest: bit_byte_less)
  show "drop_bit 1 (push_bit 8 v OR ucast b1) AND 0x1F = ucast (drop_bit 1 b1 AND 0x1F)"
    unfolding mask_numerals32 mask_numerals8
    by (rule bit_word_eqI) (auto simp: bit_simps bit_16_iff bit_times_2_iff Suc_Suc_diff2 Suc_diff_simps dest: bit_byte_less)
  show "drop_bit 4 (push_bit 8 (push_bit 8 v OR ucast b1) OR ucast b2) AND 0x1F
          = ucast (push_bit 4 (b1 AND 1) OR drop_bit 4 b2)"
    unfolding mask_numerals32 mask_numerals8
    by (rule bit_word_eqI) (auto simp: bit_simps bit_16_iff bit_times_2_iff Suc_Suc_diff2 Suc_diff_simps dest: bit_byte_less)
  show "drop_bit 7 (push_bit 8 (push_bit 8 v OR ucast b2) OR ucast b3) AND 0x1F
          = ucast (push_bit 1 (b2 AND 0x0F) OR drop_bit 7 b3)"
    unfolding mask_numerals32 mask_numerals8
    by (rule bit_word_eqI) (auto simp: bit_simps bit_16_iff bit_times_2_iff Suc_Suc_diff2 Suc_diff_simps dest: bit_byte_less)
  show "drop_bit 2 (push_bit 8 v OR ucast b3) AND 0x1F = ucast (drop_bit 2 b3 AND 0x1F)"
    unfolding mask_numerals32 mask_numerals8
    by (rule bit_word_eqI) (auto simp: bit_simps bit_16_iff bit_times_2_iff Suc_Suc_diff2 Suc_diff_simps dest: bit_byte_less)
  show "drop_bit 5 (push_bit 8 (push_bit 8 v OR ucast b3) OR ucast b4) AND 0x1F
          = ucast (push_bit 3 (b3 AND 3) OR drop_bit 5 b4)"
    unfolding mask_numerals32 mask_numerals8
    by (rule bit_word_eqI) (auto simp: bit_simps bit_16_iff bit_times_2_iff Suc_Suc_diff2 Suc_diff_simps dest: bit_byte_less)
  show "(push_bit 8 v OR ucast b4) AND 0x1F = ucast (b4 AND 0x1F)"
    unfolding mask_numerals32 mask_numerals8
    by (rule bit_word_eqI) (auto simp: bit_simps bit_16_iff bit_times_2_iff Suc_Suc_diff2 Suc_diff_simps dest: bit_byte_less)
qed

lemma base32_f:
  fixes v :: "32 word" and b0 b1 b2 b3 :: byte
  shows "push_bit 2 (push_bit 8 v OR ucast b0) AND 0x1F = ucast (push_bit 2 (b0 AND 7))"
    and "push_bit 4 (push_bit 8 v OR ucast b1) AND 0x1F = ucast (push_bit 4 (b1 AND 1))"
    and "push_bit 1 (push_bit 8 v OR ucast b2) AND 0x1F = ucast (push_bit 1 (b2 AND 0x0F))"
    and "push_bit 3 (push_bit 8 v OR ucast b3) AND 0x1F = ucast (push_bit 3 (b3 AND 3))"
proof -
  show "push_bit 2 (push_bit 8 v OR ucast b0) AND 0x1F = ucast (push_bit 2 (b0 AND 7))"
    unfolding mask_numerals32 mask_numerals8
    by (rule bit_word_eqI) (auto simp: bit_simps bit_16_iff bit_times_2_iff Suc_Suc_diff2 Suc_diff_simps dest: bit_byte_less)
  show "push_bit 4 (push_bit 8 v OR ucast b1) AND 0x1F = ucast (push_bit 4 (b1 AND 1))"
    unfolding mask_numerals32 mask_numerals8
    by (rule bit_word_eqI) (auto simp: bit_simps bit_16_iff bit_times_2_iff Suc_Suc_diff2 Suc_diff_simps dest: bit_byte_less)
  show "push_bit 1 (push_bit 8 v OR ucast b2) AND 0x1F = ucast (push_bit 1 (b2 AND 0x0F))"
    unfolding mask_numerals32 mask_numerals8
    by (rule bit_word_eqI) (auto simp: bit_simps bit_16_iff bit_times_2_iff Suc_Suc_diff2 Suc_diff_simps dest: bit_byte_less)
  show "push_bit 3 (push_bit 8 v OR ucast b3) AND 0x1F = ucast (push_bit 3 (b3 AND 3))"
    unfolding mask_numerals32 mask_numerals8
    by (rule bit_word_eqI) (auto simp: bit_simps bit_16_iff bit_times_2_iff Suc_Suc_diff2 Suc_diff_simps dest: bit_byte_less)
qed

lemma base32_encode_loop_steps:
  "base32_encode_loop (b # bs) val 0 out =
     base32_encode_loop bs (push_bit 8 val OR ucast b) 3
       (out @ [base32_table ! unat (drop_bit 3 (push_bit 8 val OR ucast b) AND 0x1F)])"
  "base32_encode_loop (b # bs) val 3 out =
     base32_encode_loop bs (push_bit 8 val OR ucast b) 1
       (out @ [base32_table ! unat (drop_bit 6 (push_bit 8 val OR ucast b) AND 0x1F),
               base32_table ! unat (drop_bit 1 (push_bit 8 val OR ucast b) AND 0x1F)])"
  "base32_encode_loop (b # bs) val 1 out =
     base32_encode_loop bs (push_bit 8 val OR ucast b) 4
       (out @ [base32_table ! unat (drop_bit 4 (push_bit 8 val OR ucast b) AND 0x1F)])"
  "base32_encode_loop (b # bs) val 4 out =
     base32_encode_loop bs (push_bit 8 val OR ucast b) 2
       (out @ [base32_table ! unat (drop_bit 7 (push_bit 8 val OR ucast b) AND 0x1F),
               base32_table ! unat (drop_bit 2 (push_bit 8 val OR ucast b) AND 0x1F)])"
  "base32_encode_loop (b # bs) val 2 out =
     base32_encode_loop bs (push_bit 8 val OR ucast b) 0
       (out @ [base32_table ! unat (drop_bit 5 (push_bit 8 val OR ucast b) AND 0x1F),
               base32_table ! unat ((push_bit 8 val OR ucast b) AND 0x1F)])"
  by (simp_all add: base32_encode_emit_ge base32_encode_emit_less Let_def)

lemma base32_encode_loop_5:
  "base32_encode_loop (b0 # b1 # b2 # b3 # b4 # rest) val 0 out =
     base32_encode_loop rest
       (push_bit 8 (push_bit 8 (push_bit 8 (push_bit 8 (push_bit 8 val OR ucast b0) OR ucast b1)
          OR ucast b2) OR ucast b3) OR ucast b4) 0
       (out @ map (\<lambda>x. base32_table ! unat x) (base32_syms b0 b1 b2 b3 b4))"
  unfolding base32_encode_loop_steps base32_x base32_syms_def unat_ucast_byte32
  by (simp only: append_assoc append_Cons append_Nil list.map)

lemma base32_value8:
  "base32_value [i0, i1, i2, i3, i4, i5, i6, i7] 0 0 =
     push_bit 35 (word_of_int i0) OR push_bit 30 (word_of_int i1) OR push_bit 25 (word_of_int i2)
       OR push_bit 20 (word_of_int i3) OR push_bit 15 (word_of_int i4)
       OR push_bit 10 (word_of_int i5) OR push_bit 5 (word_of_int i6) OR word_of_int i7"
  by (simp add: or.assoc)

lemma word64_of_byte: "word_of_int (int (unat (x :: byte))) = (ucast x :: 64 word)"
  by simp

lemma less8E:
  assumes "n < (8 :: nat)"
  obtains "n = 0" | "n = 1" | "n = 2" | "n = 3" | "n = 4" | "n = 5" | "n = 6" | "n = 7"
  using assms by linarith

lemma bit_byte_ge: "8 \<le> n \<Longrightarrow> bit (b :: byte) n \<longleftrightarrow> False"
  using bit_byte_less [of b n] by auto

lemma base32_bytes_of_syms:
  fixes b0 b1 b2 b3 b4 :: byte
  defines "V \<equiv> push_bit 35 (ucast (drop_bit 3 b0))
       OR push_bit 30 (ucast (push_bit 2 (b0 AND 7) OR drop_bit 6 b1))
       OR push_bit 25 (ucast (drop_bit 1 b1 AND 0x1F))
       OR push_bit 20 (ucast (push_bit 4 (b1 AND 1) OR drop_bit 4 b2))
       OR push_bit 15 (ucast (push_bit 1 (b2 AND 0x0F) OR drop_bit 7 b3))
       OR push_bit 10 (ucast (drop_bit 2 b3 AND 0x1F))
       OR push_bit 5 (ucast (push_bit 3 (b3 AND 3) OR drop_bit 5 b4))
       OR ucast (b4 AND 0x1F) :: 64 word"
  shows "ucast (drop_bit 32 V AND 0xFF) = b0" "ucast (drop_bit 24 V AND 0xFF) = b1"
    "ucast (drop_bit 16 V AND 0xFF) = b2" "ucast (drop_bit 8 V AND 0xFF) = b3"
    "ucast (V AND 0xFF) = b4"
proof -
  show "ucast (drop_bit 32 V AND 0xFF) = b0"
    unfolding V_def mask_numerals64 mask_numerals8
    by (rule bit_word_eqI, simp, erule less8E;
        simp add: bit_simps bit_16_iff bit_times_2_iff bit_byte_ge
          flip: numeral_2_eq_2 numeral_3_eq_3)
  show "ucast (drop_bit 24 V AND 0xFF) = b1"
    unfolding V_def mask_numerals64 mask_numerals8
    by (rule bit_word_eqI, simp, erule less8E;
        simp add: bit_simps bit_16_iff bit_times_2_iff bit_byte_ge
          flip: numeral_2_eq_2 numeral_3_eq_3)
  show "ucast (drop_bit 16 V AND 0xFF) = b2"
    unfolding V_def mask_numerals64 mask_numerals8
    by (rule bit_word_eqI, simp, erule less8E;
        simp add: bit_simps bit_16_iff bit_times_2_iff bit_byte_ge
          flip: numeral_2_eq_2 numeral_3_eq_3)
  show "ucast (drop_bit 8 V AND 0xFF) = b3"
    unfolding V_def mask_numerals64 mask_numerals8
    by (rule bit_word_eqI, simp, erule less8E;
        simp add: bit_simps bit_16_iff bit_times_2_iff bit_byte_ge
          flip: numeral_2_eq_2 numeral_3_eq_3)
  show "ucast (V AND 0xFF) = b4"
    unfolding V_def mask_numerals64 mask_numerals8
    by (rule bit_word_eqI, simp, erule less8E;
        simp add: bit_simps bit_16_iff bit_times_2_iff bit_byte_ge
          flip: numeral_2_eq_2 numeral_3_eq_3)
qed

lemma base32_encode_finish: "base32_encode p = base32_finish (base32_encode_loop p 0 0 [])"
  by (simp add: base32_encode_def base32_finish_def split: prod.splits)

lemma base32_syms_short:
  "base32_syms b0 0 0 0 0 = [drop_bit 3 b0, push_bit 2 (b0 AND 7), 0, 0, 0, 0, 0, 0]"
  "base32_syms b0 b1 0 0 0 =
     [drop_bit 3 b0, push_bit 2 (b0 AND 7) OR drop_bit 6 b1, drop_bit 1 b1 AND 0x1F,
      push_bit 4 (b1 AND 1), 0, 0, 0, 0]"
  "base32_syms b0 b1 b2 0 0 =
     [drop_bit 3 b0, push_bit 2 (b0 AND 7) OR drop_bit 6 b1, drop_bit 1 b1 AND 0x1F,
      push_bit 4 (b1 AND 1) OR drop_bit 4 b2, push_bit 1 (b2 AND 0x0F), 0, 0, 0]"
  "base32_syms b0 b1 b2 b3 0 =
     [drop_bit 3 b0, push_bit 2 (b0 AND 7) OR drop_bit 6 b1, drop_bit 1 b1 AND 0x1F,
      push_bit 4 (b1 AND 1) OR drop_bit 4 b2, push_bit 1 (b2 AND 0x0F) OR drop_bit 7 b3,
      drop_bit 2 b3 AND 0x1F, push_bit 3 (b3 AND 3), 0]"
  unfolding base32_syms_def by simp_all

lemma base32_finish_short:
  "base32_finish (base32_encode_loop [] val 0 out) = out"
  "base32_finish (base32_encode_loop [b0] val 0 out) =
     out @ map (\<lambda>x. base32_table ! unat x) (take 2 (base32_syms b0 0 0 0 0))"
  "base32_finish (base32_encode_loop [b0, b1] val 0 out) =
     out @ map (\<lambda>x. base32_table ! unat x) (take 4 (base32_syms b0 b1 0 0 0))"
  "base32_finish (base32_encode_loop [b0, b1, b2] val 0 out) =
     out @ map (\<lambda>x. base32_table ! unat x) (take 5 (base32_syms b0 b1 b2 0 0))"
  "base32_finish (base32_encode_loop [b0, b1, b2, b3] val 0 out) =
     out @ map (\<lambda>x. base32_table ! unat x) (take 7 (base32_syms b0 b1 b2 b3 0))"
proof -
  have n: "(5::nat) - 3 = 2" "(5::nat) - 1 = 4" "(5::nat) - 4 = 1" "(5::nat) - 2 = 3" by simp_all
  have t: "take 2 [x0, x1, x2, x3, x4, x5, x6, x7] = [x0, x1]"
    "take 4 [x0, x1, x2, x3, x4, x5, x6, x7] = [x0, x1, x2, x3]"
    "take 5 [x0, x1, x2, x3, x4, x5, x6, x7] = [x0, x1, x2, x3, x4]"
    "take 7 [x0, x1, x2, x3, x4, x5, x6, x7] = [x0, x1, x2, x3, x4, x5, x6]"
    for x0 x1 x2 x3 x4 x5 x6 x7 :: byte
    by (simp_all add: numeral_eq_Suc)
  show "base32_finish (base32_encode_loop [] val 0 out) = out"
    by (simp add: base32_finish_def)
  show "base32_finish (base32_encode_loop [b0] val 0 out) =
     out @ map (\<lambda>x. base32_table ! unat x) (take 2 (base32_syms b0 0 0 0 0))"
    unfolding base32_encode_loop_steps base32_encode_loop.simps(1) base32_finish_def
      base32_syms_short t
    by (simp only: prod.case n base32_x base32_f unat_ucast_byte32 list.map append_assoc
        append_Cons append_Nil) simp
  show "base32_finish (base32_encode_loop [b0, b1] val 0 out) =
     out @ map (\<lambda>x. base32_table ! unat x) (take 4 (base32_syms b0 b1 0 0 0))"
    unfolding base32_encode_loop_steps base32_encode_loop.simps(1) base32_finish_def
      base32_syms_short t
    by (simp only: prod.case n base32_x base32_f unat_ucast_byte32 list.map append_assoc
        append_Cons append_Nil) simp
  show "base32_finish (base32_encode_loop [b0, b1, b2] val 0 out) =
     out @ map (\<lambda>x. base32_table ! unat x) (take 5 (base32_syms b0 b1 b2 0 0))"
    unfolding base32_encode_loop_steps base32_encode_loop.simps(1) base32_finish_def
      base32_syms_short t
    by (simp only: prod.case n base32_x base32_f unat_ucast_byte32 list.map append_assoc
        append_Cons append_Nil) simp
  show "base32_finish (base32_encode_loop [b0, b1, b2, b3] val 0 out) =
     out @ map (\<lambda>x. base32_table ! unat x) (take 7 (base32_syms b0 b1 b2 b3 0))"
    unfolding base32_encode_loop_steps base32_encode_loop.simps(1) base32_finish_def
      base32_syms_short t
    by (simp only: prod.case n base32_x base32_f unat_ucast_byte32 list.map append_assoc
        append_Cons append_Nil) simp
qed

lemma list5_induct [case_names 0 1 2 3 4 step]:
  assumes "P []" and "\<And>a. P [a]" and "\<And>a b. P [a, b]" and "\<And>a b c. P [a, b, c]"
    and "\<And>a b c d. P [a, b, c, d]"
    and "\<And>a b c d e r. P r \<Longrightarrow> P (a # b # c # d # e # r)"
  shows "P xs"
proof (induction xs rule: length_induct)
  case (1 xs)
  show ?case
  proof (cases xs)
    case Nil
    then show ?thesis using assms(1) by simp
  next
    case c1: (Cons a xs1)
    show ?thesis
    proof (cases xs1)
      case Nil
      then show ?thesis using assms(2) c1 by simp
    next
      case c2: (Cons b xs2)
      show ?thesis
      proof (cases xs2)
        case Nil
        then show ?thesis using assms(3) c1 c2 by simp
      next
        case c3: (Cons c xs3)
        show ?thesis
        proof (cases xs3)
          case Nil
          then show ?thesis using assms(4) c1 c2 c3 by simp
        next
          case c4: (Cons d xs4)
          show ?thesis
          proof (cases xs4)
            case Nil
            then show ?thesis using assms(5) c1 c2 c3 c4 by simp
          next
            case c5: (Cons e r)
            have "P r" using 1 c1 c2 c3 c4 c5 by simp
            then show ?thesis using assms(6) c1 c2 c3 c4 c5 by simp
          qed
        qed
      qed
    qed
  qed
qed

lemma base32_finish_loop:
  "base32_finish (base32_encode_loop p val 0 out) = out @ base32_encode p"
proof (induction p arbitrary: val out rule: list5_induct)
  case (step a b c d e r)
  show ?case
    unfolding base32_encode_finish base32_encode_loop_5 step [of _ "_ @ _"] step [of _ "map _ _"]
    by simp
qed (simp_all only: base32_encode_finish base32_finish_short append_Nil append_Nil2)

lemma base32_encode_short:
  "base32_encode [] = []"
  "base32_encode [b0] = map (\<lambda>x. base32_table ! unat x) (take 2 (base32_syms b0 0 0 0 0))"
  "base32_encode [b0, b1] = map (\<lambda>x. base32_table ! unat x) (take 4 (base32_syms b0 b1 0 0 0))"
  "base32_encode [b0, b1, b2] =
     map (\<lambda>x. base32_table ! unat x) (take 5 (base32_syms b0 b1 b2 0 0))"
  "base32_encode [b0, b1, b2, b3] =
     map (\<lambda>x. base32_table ! unat x) (take 7 (base32_syms b0 b1 b2 b3 0))"
  by (simp_all only: base32_encode_finish base32_finish_short append_Nil)

lemma base32_encode_5:
  "base32_encode (b0 # b1 # b2 # b3 # b4 # rest) =
     map (\<lambda>x. base32_table ! unat x) (base32_syms b0 b1 b2 b3 b4) @ base32_encode rest"
  unfolding base32_encode_finish [of "b0 # b1 # b2 # b3 # b4 # rest"] base32_encode_loop_5
    base32_finish_loop
  by simp

lemma base32_table_distinct: "distinct base32_table"
  by (simp add: base32_table_def)

lemma base32_syms_mask:
  "x \<in> set (base32_syms b0 b1 b2 b3 b4) \<Longrightarrow> x AND mask 5 = x"
  unfolding base32_syms_def mask_numerals8
  by (simp, elim disjE; simp; rule bit_word_eqI, simp, erule less8E;
      simp add: bit_simps bit_16_iff bit_times_2_iff bit_byte_ge
        flip: numeral_2_eq_2 numeral_3_eq_3)

lemma base32_syms_less:
  assumes "x \<in> set (base32_syms b0 b1 b2 b3 b4)"
  shows "unat x < 32"
  using unat_and_mask_less [of x 5] base32_syms_mask [OF assms] by simp

lemma base32_digit_sym:
  assumes "unat (x :: byte) < 32"
  shows "base32_digit (base32_table ! unat x) = int (unat x)"
    and "base32_table ! unat x \<noteq> CHR ''=''"
    and "base32_table ! unat x \<in> set base32_table"
proof -
  have m: "base32_table ! unat x \<in> set base32_table"
    using assms by (simp add: base32_table_length)
  then show ne: "base32_table ! unat x \<noteq> CHR ''=''"
    using base32_table_no_pad by metis
  show "base32_table ! unat x \<in> set base32_table" by (rule m)
  show "base32_digit (base32_table ! unat x) = int (unat x)"
    unfolding base32_digit_def using ne assms
    by (simp add: find_index_nth base32_table_distinct base32_table_length)
qed

lemma length_base32_syms: "length (base32_syms b0 b1 b2 b3 b4) = 8"
  by (simp add: base32_syms_def)

lemma base32_group_syms:
  assumes "idx = map (\<lambda>x. int (unat x)) (base32_syms b0 b1 b2 b3 b4)"
  shows "base32_group g idx =
     [b0] @ (if g ! 2 \<noteq> CHR ''='' then [b1] else [])
          @ (if g ! 4 \<noteq> CHR ''='' then [b2] else [])
          @ (if g ! 5 \<noteq> CHR ''='' then [b3] else [])
          @ (if g ! 6 \<noteq> CHR ''='' then [b4] else [])"
  unfolding base32_group_def assms base32_syms_def list.map base32_value8 word64_of_byte Let_def
    base32_bytes_of_syms ..

lemma base32_group_take:
  assumes k: "k \<le> 8"
    and z: "drop k (base32_syms b0 b1 b2 b3 b4) = replicate (8 - k) 0"
    and g: "g = map (\<lambda>x. base32_table ! unat x) (take k (base32_syms b0 b1 b2 b3 b4))
              @ replicate (8 - k) (CHR ''='')"
  shows "base32_group g (map base32_digit g) =
     [b0] @ (if 2 < k then [b1] else []) @ (if 4 < k then [b2] else [])
          @ (if 5 < k then [b3] else []) @ (if 6 < k then [b4] else [])"
    and "length g = 8" and "base32_valid g"
proof -
  let ?s = "base32_syms b0 b1 b2 b3 b4"
  have in_s: "x \<in> set (take k ?s) \<Longrightarrow> unat x < 32" for x
    using base32_syms_less [of x b0 b1 b2 b3 b4] set_take_subset [of k ?s] by blast
  have d1: "map base32_digit (map (\<lambda>x. base32_table ! unat x) (take k ?s)) =
      map (\<lambda>x. int (unat x)) (take k ?s)"
    unfolding map_map by (rule map_cong [OF refl]) (simp add: base32_digit_sym(1) in_s)
  have d2: "map base32_digit (replicate (8 - k) (CHR ''='')) =
      map (\<lambda>x. int (unat x)) (drop k ?s)"
    unfolding z by (simp add: base32_digit_def)
  have "map base32_digit g = map (\<lambda>x. int (unat x)) (take k ?s @ drop k ?s)"
    unfolding g map_append d1 d2 ..
  then have idx: "map base32_digit g = map (\<lambda>x. int (unat x)) ?s" by simp
  show len: "length g = 8" using k by (simp add: g length_base32_syms)
  have nth: "g ! j \<noteq> CHR ''='' \<longleftrightarrow> j < k" if "j < 8" for j
  proof (cases "j < k")
    case True
    then have "g ! j = base32_table ! unat (?s ! j)"
      using k by (simp add: g nth_append length_base32_syms)
    moreover have "?s ! j \<in> set (take k ?s)"
      using True k by (metis length_base32_syms length_take min.absorb2 nth_mem nth_take)
    ultimately show ?thesis using True base32_digit_sym(2) [OF in_s] by simp
  next
    case False
    then show ?thesis using k that by (simp add: g nth_append length_base32_syms)
  qed
  show "base32_group g (map base32_digit g) =
     [b0] @ (if 2 < k then [b1] else []) @ (if 4 < k then [b2] else [])
          @ (if 5 < k then [b3] else []) @ (if 6 < k then [b4] else [])"
    unfolding base32_group_syms [OF idx] by (simp only: nth semiring_norm)
  have "list_all (\<lambda>c. c = CHR ''='' \<or> c \<in> set base32_table)
      (map (\<lambda>x. base32_table ! unat x) (take k ?s))"
    unfolding list_all_iff using base32_digit_sym(3) [OF in_s] by auto
  then show "base32_valid g"
    unfolding g base32_valid_append using base32_valid_pad by (simp add: base32_valid_def)
qed

lemma base32_padded_short:
  "base32_padded [] = []"
  "base32_padded [b0] =
     map (\<lambda>x. base32_table ! unat x) (take 2 (base32_syms b0 0 0 0 0))
       @ replicate (8 - 2) (CHR ''='')"
  "base32_padded [b0, b1] =
     map (\<lambda>x. base32_table ! unat x) (take 4 (base32_syms b0 b1 0 0 0))
       @ replicate (8 - 4) (CHR ''='')"
  "base32_padded [b0, b1, b2] =
     map (\<lambda>x. base32_table ! unat x) (take 5 (base32_syms b0 b1 b2 0 0))
       @ replicate (8 - 5) (CHR ''='')"
  "base32_padded [b0, b1, b2, b3] =
     map (\<lambda>x. base32_table ! unat x) (take 7 (base32_syms b0 b1 b2 b3 0))
       @ replicate (8 - 7) (CHR ''='')"
  unfolding base32_padded_def base32_encode_short
  by (simp_all add: length_base32_syms)

lemma base32_padded_5:
  "base32_padded (b0 # b1 # b2 # b3 # b4 # rest) =
     (map (\<lambda>x. base32_table ! unat x) (take 8 (base32_syms b0 b1 b2 b3 b4))
        @ replicate (8 - 8) (CHR ''='')) @ base32_padded rest"
  unfolding base32_padded_def base32_encode_5
  by (simp add: length_base32_syms)

lemma base32_syms_drop:
  "drop 2 (base32_syms b0 0 0 0 0) = replicate (8 - 2) 0"
  "drop 4 (base32_syms b0 b1 0 0 0) = replicate (8 - 4) 0"
  "drop 5 (base32_syms b0 b1 b2 0 0) = replicate (8 - 5) 0"
  "drop 7 (base32_syms b0 b1 b2 b3 0) = replicate (8 - 7) 0"
  "drop 8 (base32_syms b0 b1 b2 b3 b4) = replicate (8 - 8) 0"
  unfolding base32_syms_short
  by (simp_all add: length_base32_syms numeral_eq_Suc)

lemma le8: "(2::nat) \<le> 8" "(4::nat) \<le> 8" "(5::nat) \<le> 8" "(7::nat) \<le> 8" "(8::nat) \<le> 8"
  by simp_all

lemma base32_padded_bytes:
  "base32_bytes (base32_padded p) = (if length p mod 5 = 4 then p @ [0] else p)"
proof (induction p rule: list5_induct)
  case 0
  show ?case by (simp add: base32_padded_short)
next
  case (1 a)
  note t = base32_group_take [OF le8(1) base32_syms_drop(1) base32_padded_short(2)]
  show ?case unfolding base32_bytes_group [OF t(2)] t(1) by simp
next
  case (2 a b)
  note t = base32_group_take [OF le8(2) base32_syms_drop(2) base32_padded_short(3)]
  show ?case unfolding base32_bytes_group [OF t(2)] t(1) by simp
next
  case (3 a b c)
  note t = base32_group_take [OF le8(3) base32_syms_drop(3) base32_padded_short(4)]
  show ?case unfolding base32_bytes_group [OF t(2)] t(1) by simp
next
  case (4 a b c d)
  note t = base32_group_take [OF le8(4) base32_syms_drop(4) base32_padded_short(5)]
  show ?case unfolding base32_bytes_group [OF t(2)] t(1) by simp
next
  case (step a b c d e r)
  note t = base32_group_take [OF le8(5) base32_syms_drop(5) refl]
  define G where "G = map (\<lambda>x. base32_table ! unat x) (take 8 (base32_syms a b c d e))
      @ replicate (8 - 8) (CHR ''='')"
  have l: "length G mod 8 = 0" unfolding G_def t(2) by simp
  have "base32_bytes G = [a, b, c, d, e]"
    unfolding G_def base32_bytes_group [OF t(2)] t(1) by simp
  then have "base32_bytes (base32_padded (a # b # c # d # e # r)) =
      [a, b, c, d, e] @ base32_bytes (base32_padded r)"
    unfolding base32_padded_5 G_def [symmetric] base32_bytes_append [OF l] by simp
  then show ?case using step by simp
qed

lemma base32_encode_valid: "base32_valid (base32_encode p)"
proof (induction p rule: list5_induct)
  case 0
  show ?case by (simp add: base32_encode_short base32_valid_def)
next
  case (1 a)
  from base32_group_take(3) [OF le8(1) base32_syms_drop(1) refl] show ?case
    unfolding base32_encode_short base32_valid_append by simp
next
  case (2 a b)
  from base32_group_take(3) [OF le8(2) base32_syms_drop(2) refl] show ?case
    unfolding base32_encode_short base32_valid_append by simp
next
  case (3 a b c)
  from base32_group_take(3) [OF le8(3) base32_syms_drop(3) refl] show ?case
    unfolding base32_encode_short base32_valid_append by simp
next
  case (4 a b c d)
  from base32_group_take(3) [OF le8(4) base32_syms_drop(4) refl] show ?case
    unfolding base32_encode_short base32_valid_append by simp
next
  case (step a b c d e r)
  from base32_group_take(3) [OF le8(5) base32_syms_drop(5) refl] step show ?case
    unfolding base32_encode_5 base32_valid_append by (simp add: length_base32_syms)
qed

lemma base32_roundtrip:
  "base32_decode (base32_encode p) = Inr (if length p mod 5 = 4 then p @ [0] else p)"
  unfolding base32_decode_eq [of "base32_encode p"]
  using base32_encode_valid [of p] base32_padded_bytes [of p]
  by (simp add: base32_padded_def)

subsection \<open>Round trip of all six formats\<close>

text \<open>
  A payload of 4, 9, 14, ... bytes comes back from Base32 with one more zero byte
  (lemma \<open>base32_roundtrip\<close>): its last group has seven symbols and one \<open>'='\<close>, and
  \<open>base32_decode\<close> writes the fifth byte of a group when the symbol at offset 6 is not
  \<open>'='\<close>.
\<close>

lemma base32_four_bytes_eval: "base32_decode (base32_encode [1, 2, 3, 4]) = Inr [1, 2, 3, 4, 0]"
  using base32_roundtrip [of "[1, 2, 3, 4]"] by simp

text \<open>
  A payload that starts with zero bytes and has a non-zero byte after them, such as
  \<open>[0, 0, 1]\<close>, does not come back from Base58: the encoder overwrites the \<open>'1'\<close>
  prefix, and the decoder puts the zero bytes it counted after the number.
\<close>

lemma base58_leading_zero_eval: "base58_encode [0, 0, 1] = ''12'' \<and> base58_decode ''12'' = Inr [1, 0]"
  by (simp add: base58_encode_def base58_encode_flush_0 base58_encode_flush_pos base58_table_def
      base58_decode_def find_index_def flush256_0 flush256_pos Let_def)

text \<open>
  A payload of zero bytes only does come back from Base58: with no byte left after the
  leading zeros the accumulator keeps its zero digits, one \<open>'1'\<close> each.
\<close>

lemma leading_zeros_replicate: "leading_zeros (replicate n 0) = n"
  by (induction n) simp_all

lemma base58_zero_count_replicate: "base58_zero_count (replicate n (base58_table ! 0)) = n"
  by (induction n) simp_all

lemma base58_encode_zeros: "base58_encode (replicate n 0) = replicate n (base58_table ! 0)"
  by (simp add: base58_encode_def leading_zeros_replicate)

lemma base58_roundtrip_zeros:
  "base58_decode (base58_encode (replicate n 0)) = Inr (replicate n 0)"
  unfolding base58_encode_zeros
  by (simp add: base58_decode_def base58_zero_count_replicate)

lemma list_all_zero_replicate:
  "list_all (\<lambda>b. b = 0) p \<Longrightarrow> p = replicate (length p) 0"
  by (induction p) simp_all

lemma base58_roundtrip_all:
  assumes "list_all (\<lambda>b. b = 0) p \<or> hd p \<noteq> 0"
  shows "base58_decode (base58_encode p) = Inr p"
proof (cases "list_all (\<lambda>b. b = 0) p")
  case True
  from list_all_zero_replicate [OF True] base58_roundtrip_zeros [of "length p"]
  show ?thesis by simp
next
  case False
  with assms have "hd p \<noteq> 0" by simp
  then have "p = [] \<or> hd p \<noteq> 0" by simp
  then show ?thesis by (rule base58_roundtrip)
qed

text \<open>
  C1, as stated (decoding the encoding of a payload returns the payload, for every format
  and every payload), fails for Base62 and Base85: Base62 does not keep leading zero
  bytes and its decoder refuses the empty text, Base85 pads the payload with zero bytes
  to a multiple of 4 and its decoder refuses the empty text.
\<close>

theorem roundtrip_counterexample:
  "base62_decode (base62_encode [0, 1]) = Inr [1] \<and>
   base62_decode (base62_encode [0]) = Inl EmptyInputError \<and>
   base85_decode (base85_encode [1]) = Inr [1, 0, 0, 0] \<and>
   base85_decode (base85_encode []) = Inl EmptyInputError \<and>
   base62_decode (base62_encode [0, 1]) \<noteq> Inr [0, 1] \<and>
   base62_decode (base62_encode [0]) \<noteq> Inr [0] \<and>
   base85_decode (base85_encode [1]) \<noteq> Inr [1] \<and>
   base85_decode (base85_encode []) \<noteq> Inr []"
proof -
  have r: "replicate 3 (0 :: byte) = [0, 0, 0]" by (simp add: numeral_3_eq_3)
  have "base62_decode (base62_encode [0, 1]) = Inr [1]"
    unfolding base62_roundtrip by simp
  moreover have "base62_decode (base62_encode [0]) = Inl EmptyInputError"
    unfolding base62_roundtrip by simp
  moreover have "base85_decode (base85_encode [1]) = Inr [1, 0, 0, 0]"
    using base85_roundtrip [of "[1]"] by (simp add: r)
  moreover have "base85_decode (base85_encode []) = Inl EmptyInputError"
    by (simp add: base85_encode_def base85_decode_def)
  ultimately show ?thesis by simp
qed

text \<open>
  C1, amended: decoding the encoding of a payload \<open>p\<close> returns \<open>p\<close> for Base16 and
  Base64, for every payload; for Base32 when the length of \<open>p\<close> is not 4 modulo 5; for
  Base58 when all bytes of \<open>p\<close> are zero or its first byte is not zero. For Base62 it returns \<open>p\<close>
  without its leading zero bytes, so \<open>p\<close> itself when \<open>p\<close> is not empty and its first
  byte is not zero, and fails when nothing is left. For Base85 on a non-empty payload
  it returns \<open>p\<close> padded with zero bytes to a multiple of 4, so \<open>p\<close> itself when the
  length is a multiple of 4; on the empty payload it fails.
\<close>

theorem roundtrip_amended:
  "base16_decode (base16_encode p) = Inr p \<and>
   base64_decode (base64_encode p) = Inr p \<and>
   (length p mod 5 \<noteq> 4 \<longrightarrow> base32_decode (base32_encode p) = Inr p) \<and>
   ((list_all (\<lambda>b. b = 0) p \<or> hd p \<noteq> 0) \<longrightarrow>
      base58_decode (base58_encode p) = Inr p) \<and>
   (dropWhile (\<lambda>b. b = 0) p \<noteq> [] \<longrightarrow>
      base62_decode (base62_encode p) = Inr (dropWhile (\<lambda>b. b = 0) p)) \<and>
   (dropWhile (\<lambda>b. b = 0) p = [] \<longrightarrow> base62_decode (base62_encode p) = Inl EmptyInputError) \<and>
   (p \<noteq> [] \<and> hd p \<noteq> 0 \<longrightarrow> base62_decode (base62_encode p) = Inr p) \<and>
   (p \<noteq> [] \<longrightarrow>
      base85_decode (base85_encode p) = Inr (p @ replicate ((4 - length p mod 4) mod 4) 0)) \<and>
   (p \<noteq> [] \<and> length p mod 4 = 0 \<longrightarrow> base85_decode (base85_encode p) = Inr p) \<and>
   base85_decode (base85_encode []) = Inl EmptyInputError"
proof (intro conjI impI)
  show "base16_decode (base16_encode p) = Inr p" by (rule base16_roundtrip)
  show "base64_decode (base64_encode p) = Inr p" by (rule base64_roundtrip)
  show "base32_decode (base32_encode p) = Inr p" if "length p mod 5 \<noteq> 4"
    using that by (simp add: base32_roundtrip)
  show "base58_decode (base58_encode p) = Inr p" if "list_all (\<lambda>b. b = 0) p \<or> hd p \<noteq> 0"
    using that by (rule base58_roundtrip_all)
  show "base62_decode (base62_encode p) = Inr (dropWhile (\<lambda>b. b = 0) p)"
    if "dropWhile (\<lambda>b. b = 0) p \<noteq> []"
    using that by (simp add: base62_roundtrip)
  show "base62_decode (base62_encode p) = Inl EmptyInputError"
    if "dropWhile (\<lambda>b. b = 0) p = []"
    using that by (simp add: base62_roundtrip)
  show "base62_decode (base62_encode p) = Inr p" if "p \<noteq> [] \<and> hd p \<noteq> 0"
  proof -
    from that have "dropWhile (\<lambda>b. b = 0) p = p" by (cases p) simp_all
    with that show ?thesis by (simp add: base62_roundtrip)
  qed
  show "base85_decode (base85_encode p) = Inr (p @ replicate ((4 - length p mod 4) mod 4) 0)"
    if "p \<noteq> []"
    using that by (rule base85_roundtrip)
  show "base85_decode (base85_encode p) = Inr p" if "p \<noteq> [] \<and> length p mod 4 = 0"
    using that base85_roundtrip [of p] by simp
  show "base85_decode (base85_encode []) = Inl EmptyInputError"
    by (simp add: base85_encode_def base85_decode_def)
qed

text \<open>
  C1, amended, at the payloads \<open>[1, 2, 3, 4, 5, 6, 7, 8]\<close>, \<open>[0, 0, 7]\<close>, \<open>[0]\<close> and
  \<open>[0, 0]\<close>.
\<close>

theorem roundtrip_amended_witness:
  "length [1, 2, 3, 4, 5, 6, 7, 8 :: byte] mod 5 \<noteq> 4 \<and>
   base32_decode (base32_encode [1, 2, 3, 4, 5, 6, 7, 8]) = Inr [1, 2, 3, 4, 5, 6, 7, 8] \<and>
   hd [1, 2, 3, 4, 5, 6, 7, 8 :: byte] \<noteq> 0 \<and>
   base58_decode (base58_encode [1, 2, 3, 4, 5, 6, 7, 8]) = Inr [1, 2, 3, 4, 5, 6, 7, 8] \<and>
   base62_decode (base62_encode [1, 2, 3, 4, 5, 6, 7, 8]) = Inr [1, 2, 3, 4, 5, 6, 7, 8] \<and>
   length [1, 2, 3, 4, 5, 6, 7, 8 :: byte] mod 4 = 0 \<and>
   base85_decode (base85_encode [1, 2, 3, 4, 5, 6, 7, 8]) = Inr [1, 2, 3, 4, 5, 6, 7, 8] \<and>
   dropWhile (\<lambda>b. b = 0) [0, 0, 7 :: byte] = [7] \<and>
   base62_decode (base62_encode [0, 0, 7]) = Inr [7] \<and>
   dropWhile (\<lambda>b. b = 0) [0 :: byte] = [] \<and>
   base62_decode (base62_encode [0]) = Inl EmptyInputError \<and>
   list_all (\<lambda>b. b = 0) [0, 0 :: byte] \<and>
   base58_decode (base58_encode [0, 0]) = Inr [0, 0]"
proof -
  let ?p = "[1, 2, 3, 4, 5, 6, 7, 8 :: byte]"
  have z: "list_all (\<lambda>b. b = 0) [0, 0 :: byte]" by simp
  have z58: "base58_decode (base58_encode [0, 0]) = Inr [0, 0]"
    using roundtrip_amended [of "[0, 0]"] z by blast
  have h: "length ?p mod 5 \<noteq> 4" "hd ?p \<noteq> 0" "?p \<noteq> []" "length ?p mod 4 = 0"
    by simp_all
  have d: "dropWhile (\<lambda>b. b = 0) [0, 0, 7 :: byte] = [7]"
    "dropWhile (\<lambda>b. b = 0) [0 :: byte] = []"
    by simp_all
  have dn: "dropWhile (\<lambda>b. b = 0) [0, 0, 7 :: byte] \<noteq> []"
    by simp
  have r32: "base32_decode (base32_encode ?p) = Inr ?p"
    using roundtrip_amended [of ?p] h by blast
  have r58: "base58_decode (base58_encode ?p) = Inr ?p"
    using roundtrip_amended [of ?p] h by blast
  have r62: "base62_decode (base62_encode ?p) = Inr ?p"
    using roundtrip_amended [of ?p] h by blast
  have r85: "base85_decode (base85_encode ?p) = Inr ?p"
    using roundtrip_amended [of ?p] h by blast
  have "base62_decode (base62_encode [0, 0, 7]) = Inr (dropWhile (\<lambda>b. b = 0) [0, 0, 7])"
    using roundtrip_amended [of "[0, 0, 7]"] dn by blast
  then have s1: "base62_decode (base62_encode [0, 0, 7]) = Inr [7]"
    unfolding d .
  have s2: "base62_decode (base62_encode [0]) = Inl EmptyInputError"
    using roundtrip_amended [of "[0]"] d(2) by blast
  from h d r32 r58 r62 r85 s1 s2 z z58 show ?thesis by blast
qed

end
